theory Spec2Isabelle
  imports Main "HOL-Library.Word" "HOL-Library.List_Lexorder" "HOL-Library.AList"
begin

unbundle bit_operations_syntax

section \<open>Data model\<close>

text \<open>
  Go strings and byte slices are sequences of bytes. Strings are compared byte by byte
  (unsigned), which is the lexicographic order on lists of 8-bit words.
\<close>

type_synonym byte = "8 word"
type_synonym bytes = "byte list"
type_synonym uint64 = "64 word"

text \<open>
  The errors that the package can hand to its caller. \<open>ErrNotFound\<close> is the engine's
  \<^verbatim>\<open>buntdb.ErrNotFound\<close>, \<open>ErrKeyNotFound\<close> the package's own sentinel,
  \<open>ErrLogNotFound\<close> is \<^verbatim>\<open>raft.ErrLogNotFound\<close>, \<open>ErrInvalidBuffer\<close> is
  \<^verbatim>\<open>errors.New("invalid buffer")\<close>, \<open>ErrSyntax\<close> and \<open>ErrRange\<close> are the two
  failures of \<^verbatim>\<open>strconv.ParseUint\<close>, \<open>ErrEngine c\<close> stands for every other error
  of the engine (closed database, closed transaction, failed write), and \<open>Panic\<close> is a
  run-time panic on an out-of-range index.
\<close>

datatype error =
    ErrNotFound
  | ErrKeyNotFound
  | ErrLogNotFound
  | ErrInvalidBuffer
  | ErrSyntax
  | ErrRange
  | ErrEngine nat
  | Panic

text \<open>The log entry of the consensus library (\<^verbatim>\<open>raft.Log\<close>); \<^verbatim>\<open>LogType\<close> is a \<^verbatim>\<open>uint8\<close>.\<close>

record Log =
  Index :: uint64
  Term :: uint64
  Type :: byte
  Data :: bytes

section \<open>Binary codec\<close>

text \<open>
  \<^verbatim>\<open>binary.LittleEndian.PutUint64(b, v)\<close> writes the eight bytes of \<open>v\<close>, least
  significant first, into \<open>b[0..7]\<close>, and \<^verbatim>\<open>binary.LittleEndian.Uint64(b)\<close> reads them
  back. Both panic when \<open>b\<close> is shorter than eight bytes.
\<close>

definition PutUint64 :: "bytes \<Rightarrow> uint64 \<Rightarrow> error + bytes" where
  "PutUint64 b v =
     (if length b < 8 then Inl Panic
      else Inr (b[0 := ucast v, 1 := ucast (drop_bit 8 v), 2 := ucast (drop_bit 16 v),
                  3 := ucast (drop_bit 24 v), 4 := ucast (drop_bit 32 v),
                  5 := ucast (drop_bit 40 v), 6 := ucast (drop_bit 48 v),
                  7 := ucast (drop_bit 56 v)]))"

definition Uint64 :: "bytes \<Rightarrow> error + uint64" where
  "Uint64 b =
     (if length b < 8 then Inl Panic
      else Inr (ucast (b ! 0) OR push_bit 8 (ucast (b ! 1)) OR push_bit 16 (ucast (b ! 2))
             OR push_bit 24 (ucast (b ! 3)) OR push_bit 32 (ucast (b ! 4))
             OR push_bit 40 (ucast (b ! 5)) OR push_bit 48 (ucast (b ! 6))
             OR push_bit 56 (ucast (b ! 7))))"

text \<open>
  A sub-slice \<open>buf[lo:hi]\<close> shares its bytes with \<open>buf\<close>: writing through the sub-slice
  changes \<open>buf\<close>. \<open>into_slice buf lo hi f\<close> runs the writer \<open>f\<close> on the sub-slice and puts
  the bytes it wrote back into \<open>buf\<close>. \<open>copy_at dst off src\<close> is \<^verbatim>\<open>copy(dst[off:], src)\<close>,
  which copies as many bytes as both sides hold.
\<close>

definition into_slice :: "bytes \<Rightarrow> nat \<Rightarrow> nat \<Rightarrow> (bytes \<Rightarrow> error + bytes) \<Rightarrow> error + bytes" where
  "into_slice buf lo hi f =
     (if lo \<le> hi \<and> hi \<le> length buf then
        (case f (take (hi - lo) (drop lo buf)) of
           Inl e \<Rightarrow> Inl e
         | Inr s \<Rightarrow> Inr (take lo buf @ s @ drop hi buf))
      else Inl Panic)"

definition copy_at :: "bytes \<Rightarrow> nat \<Rightarrow> bytes \<Rightarrow> bytes" where
  "copy_at dst off src =
     take off dst @ take (length dst - off) src @ drop (off + length src) dst"

text \<open>
  \<^verbatim>\<open>encodeLog\<close> allocates \<open>17 + len(Data)\<close> zero bytes, writes the index into \<open>[0,8)\<close>,
  the term into \<open>[8,16)\<close>, the type tag at 16 and copies the payload to \<open>[17,...)\<close>. It
  never returns an error of its own.
\<close>

definition encodeLog :: "Log \<Rightarrow> error + bytes" where
  "encodeLog l =
     (let buf = replicate (17 + length (Data l)) (0 :: byte) in
      case into_slice buf 0 8 (\<lambda>b. PutUint64 b (Index l)) of
        Inl e \<Rightarrow> Inl e
      | Inr buf1 \<Rightarrow>
          (case into_slice buf1 8 16 (\<lambda>b. PutUint64 b (Term l)) of
             Inl e \<Rightarrow> Inl e
           | Inr buf2 \<Rightarrow> Inr (copy_at (buf2[16 := Type l]) 17 (Data l))))"

text \<open>
  \<^verbatim>\<open>decodeLog\<close> refuses a buffer of fewer than 17 bytes and otherwise overwrites the four
  fields of the entry it is given.
\<close>

definition decodeLog :: "bytes \<Rightarrow> Log \<Rightarrow> error + Log" where
  "decodeLog buf l =
     (if length buf < 17 then Inl ErrInvalidBuffer
      else
        (case Uint64 (take 8 buf) of
           Inl e \<Rightarrow> Inl e
         | Inr i \<Rightarrow>
             (case Uint64 (take 8 (drop 8 buf)) of
                Inl e \<Rightarrow> Inl e
              | Inr t \<Rightarrow> Inr (l\<lparr>Index := i, Term := t, Type := buf ! 16, Data := drop 17 buf\<rparr>))))"

text \<open>The eight little-endian bytes of a 64-bit value.\<close>

definition le_bytes :: "uint64 \<Rightarrow> bytes" where
  "le_bytes v = [ucast v, ucast (drop_bit 8 v), ucast (drop_bit 16 v), ucast (drop_bit 24 v),
     ucast (drop_bit 32 v), ucast (drop_bit 40 v), ucast (drop_bit 48 v), ucast (drop_bit 56 v)]"

section \<open>Key encoder\<close>

text \<open>
  \<^verbatim>\<open>strconv.FormatUint(u, 10)\<close> of the Go standard library: the decimal digits of \<open>u\<close>,
  most significant first, without leading zeros (\<open>"0"\<close> for zero). The byte \<open>48\<close> is the
  character \<open>0\<close>.
\<close>

function digits10 :: "nat \<Rightarrow> bytes" where
  "digits10 n =
     (if n < 10 then [48 + of_nat n] else digits10 (n div 10) @ [48 + of_nat (n mod 10)])"
  by pat_completeness auto
termination
  by (relation "measure id") auto

declare digits10.simps [simp del]

definition FormatUint :: "uint64 \<Rightarrow> bytes" where
  "FormatUint u = digits10 (unat u)"

text \<open>
  \<^verbatim>\<open>strconv.ParseUint(s, 10, 64)\<close> of the Go standard library. The empty string and any
  byte that is not a decimal digit give a syntax error with value 0; a value that does not
  fit 64 bits gives a range error with the largest value. \<open>cutoff\<close> is the smallest number
  whose tenfold exceeds the 64-bit range, \<open>maxVal\<close> is \<open>1<<64 - 1\<close> in 64-bit arithmetic.
\<close>

definition cutoff :: uint64 where
  "cutoff = (- 1) div 10 + 1"

definition maxVal :: uint64 where
  "maxVal = push_bit 64 1 - 1"

fun ParseUint_loop :: "uint64 \<Rightarrow> bytes \<Rightarrow> uint64 \<times> error option" where
  "ParseUint_loop n [] = (n, None)"
| "ParseUint_loop n (c # cs) =
     (if 48 \<le> c \<and> c \<le> 57 then
        (if n \<ge> cutoff then (maxVal, Some ErrRange)
         else
           (let n10 = n * 10; n1 = n10 + ucast (c - 48) in
            if n1 < n10 \<or> n1 > maxVal then (maxVal, Some ErrRange)
            else ParseUint_loop n1 cs))
      else (0, Some ErrSyntax))"

definition ParseUint :: "bytes \<Rightarrow> uint64 \<times> error option" where
  "ParseUint s = (if s = [] then (0, Some ErrSyntax) else ParseUint_loop 0 s)"

text \<open>
  The key suffix of the current sources: the index in decimal, padded with zeros to 20
  digits. \<^verbatim>\<open>stringToUint64\<close> drops the error of the parser.
\<close>

definition uint64ToString :: "uint64 \<Rightarrow> bytes" where
  "uint64ToString u = (let s = replicate 20 48 @ FormatUint u in drop (length s - 20) s)"

definition stringToUint64 :: "bytes \<Rightarrow> uint64" where
  "stringToUint64 s = fst (ParseUint s)"

text \<open>
  The key suffix of the older snapshot of the utility file: the eight little-endian bytes
  of the index, written into a fresh buffer; and its inverse, which panics on fewer than
  eight bytes.
\<close>

definition uint64ToString_binary :: "uint64 \<Rightarrow> error + bytes" where
  "uint64ToString_binary u = PutUint64 (replicate 8 0) u"

definition stringToUint64_binary :: "bytes \<Rightarrow> error + uint64" where
  "stringToUint64_binary s = Uint64 s"

text \<open>The fixed-width decimal numeral of \<open>w\<close> digits, used to reason about the keys.\<close>

fun pad10 :: "nat \<Rightarrow> nat \<Rightarrow> bytes" where
  "pad10 0 n = []"
| "pad10 (Suc w) n = pad10 w (n div 10) @ [48 + of_nat (n mod 10)]"

section \<open>The key-value engine\<close>

text \<open>
  Modelled from the spec: the embedded key-value engine (package \<^verbatim>\<open>buntdb\<close>) is an
  external collaborator and none of its code is part of these sources. Following the
  specification (sections 1, 5 and 6) it is a transactional store of string keys and
  values, ordered by byte-wise comparison of the keys, with get, set and delete by key and
  with ascending and descending range iteration that calls a visitor until the visitor
  returns false. \<^verbatim>\<open>View\<close> runs a function in a read transaction and returns its error;
  \<^verbatim>\<open>Update\<close> runs a function in a write transaction, commits when the function
  returns no error and rolls everything back when it returns one or when the commit
  fails. The content is an association list read through \<open>map_of\<close>.
\<close>

type_synonym items = "(bytes \<times> bytes) list"

text \<open>
  Modelled from the spec: the engine may fail for reasons outside this package (closed
  database, closed transaction, failed write). \<open>begin_err\<close> is the error with which a
  transaction refuses to start, \<open>op_err n\<close> the error of the \<open>n\<close>-th call made on the
  transaction (counted from 0), and \<open>commit_err\<close> the error of the commit.
\<close>

record faults =
  begin_err :: "error option"
  op_err :: "nat \<Rightarrow> error option"
  commit_err :: "error option"

definition no_faults :: faults where
  "no_faults = \<lparr>begin_err = None, op_err = (\<lambda>n. None), commit_err = None\<rparr>"

definition tx_Get :: "faults \<Rightarrow> nat \<Rightarrow> items \<Rightarrow> bytes \<Rightarrow> error + bytes" where
  "tx_Get f n tx key =
     (case op_err f n of
        Some e \<Rightarrow> Inl e
      | None \<Rightarrow> (case map_of tx key of None \<Rightarrow> Inl ErrNotFound | Some v \<Rightarrow> Inr v))"

definition tx_Set :: "faults \<Rightarrow> nat \<Rightarrow> items \<Rightarrow> bytes \<Rightarrow> bytes \<Rightarrow> error + items" where
  "tx_Set f n tx key val =
     (case op_err f n of
        Some e \<Rightarrow> Inl e
      | None \<Rightarrow> Inr (AList.update key val tx))"

definition tx_Delete :: "faults \<Rightarrow> nat \<Rightarrow> items \<Rightarrow> bytes \<Rightarrow> error + items" where
  "tx_Delete f n tx key =
     (case op_err f n of
        Some e \<Rightarrow> Inl e
      | None \<Rightarrow>
          (case map_of tx key of
             None \<Rightarrow> Inl ErrNotFound
           | Some v \<Rightarrow> Inr (AList.delete key tx)))"

text \<open>
  The visitor of an iteration is a closure over variables of the caller: it gets the
  captured state, and returns the new state and whether the iteration goes on.
\<close>

fun iterate :: "(bytes \<Rightarrow> bytes \<Rightarrow> 's \<Rightarrow> 's \<times> bool) \<Rightarrow> items \<Rightarrow> 's \<Rightarrow> 's" where
  "iterate it [] s = s"
| "iterate it ((k, v) # kvs) s =
     (case it k v s of (s', continue) \<Rightarrow> if continue then iterate it kvs s' else s')"

text \<open>
  The items an iteration over the keys can visit, in the order of the visit: the range
  \<open>[pivot, last]\<close> upwards, and the range \<open>[last, pivot)\<close> downwards.
\<close>

definition ascend_range :: "items \<Rightarrow> bytes \<Rightarrow> items" where
  "ascend_range tx pivot = filter (\<lambda>(k, v). pivot \<le> k) (sort_key fst tx)"

definition descend_range :: "items \<Rightarrow> bytes \<Rightarrow> items" where
  "descend_range tx pivot = filter (\<lambda>(k, v). pivot < k) (rev (sort_key fst tx))"

definition tx_AscendGreaterOrEqual ::
  "faults \<Rightarrow> nat \<Rightarrow> items \<Rightarrow> bytes \<Rightarrow> (bytes \<Rightarrow> bytes \<Rightarrow> 's \<Rightarrow> 's \<times> bool) \<Rightarrow> 's \<Rightarrow> 's \<times> error option" where
  "tx_AscendGreaterOrEqual f n tx pivot it s =
     (case op_err f n of
        Some e \<Rightarrow> (s, Some e)
      | None \<Rightarrow> (iterate it (ascend_range tx pivot) s, None))"

definition tx_DescendGreaterThan ::
  "faults \<Rightarrow> nat \<Rightarrow> items \<Rightarrow> bytes \<Rightarrow> (bytes \<Rightarrow> bytes \<Rightarrow> 's \<Rightarrow> 's \<times> bool) \<Rightarrow> 's \<Rightarrow> 's \<times> error option" where
  "tx_DescendGreaterThan f n tx pivot it s =
     (case op_err f n of
        Some e \<Rightarrow> (s, Some e)
      | None \<Rightarrow> (iterate it (descend_range tx pivot) s, None))"

text \<open>
  \<open>View f db s0 fn\<close>: \<open>s0\<close> is the value of the caller's captured variables before the
  call, which is what they still hold when the transaction does not start.
\<close>

definition View :: "faults \<Rightarrow> items \<Rightarrow> 's \<Rightarrow> (items \<Rightarrow> 's \<times> error option) \<Rightarrow> 's \<times> error option" where
  "View f db s0 fn =
     (case begin_err f of
        Some e \<Rightarrow> (s0, Some e)
      | None \<Rightarrow> fn db)"

text \<open>
  The end of a write transaction: roll back when the function failed, commit otherwise,
  and roll back when the commit fails. The result is the error and the committed content.
\<close>

definition tx_end :: "faults \<Rightarrow> items \<Rightarrow> error + items \<Rightarrow> error option \<times> items" where
  "tx_end f db r =
     (case r of
        Inl e \<Rightarrow> (Some e, db)
      | Inr tx \<Rightarrow> (case commit_err f of Some e \<Rightarrow> (Some e, db) | None \<Rightarrow> (None, tx)))"

definition Update :: "faults \<Rightarrow> items \<Rightarrow> (items \<Rightarrow> error + items) \<Rightarrow> error option \<times> items" where
  "Update f db fn =
     (case begin_err f of
        Some e \<Rightarrow> (Some e, db)
      | None \<Rightarrow> tx_end f db (fn db))"

text \<open>
  The same for a function that may run forever: then the call of \<^verbatim>\<open>Update\<close> does
  not return either (\<open>None\<close>).
\<close>

definition Update_partial ::
  "faults \<Rightarrow> items \<Rightarrow> (items \<Rightarrow> (error + items) option) \<Rightarrow> (error option \<times> items) option" where
  "Update_partial f db fn =
     (case begin_err f of
        Some e \<Rightarrow> Some (Some e, db)
      | None \<Rightarrow> map_option (tx_end f db) (fn db))"

section \<open>The store\<close>

definition dbLogs :: bytes where
  "dbLogs = map of_char ''l:''"

definition dbConf :: bytes where
  "dbConf = map of_char ''c:''"

record BuntStore =
  db :: items
  path :: bytes

text \<open>
  \<^verbatim>\<open>FirstIndex\<close> and \<^verbatim>\<open>LastIndex\<close>: one scan from the log prefix whose visitor
  keeps the key without the prefix and stops. A key shorter than the prefix would make
  the slice expression panic; the panic is reported in the error position.
\<close>

definition index_visitor :: "bytes \<Rightarrow> bytes \<Rightarrow> error + bytes \<Rightarrow> (error + bytes) \<times> bool" where
  "index_visitor key val snum =
     (if length key < length dbLogs then (Inl Panic, False)
      else (Inr (drop (length dbLogs) key), False))"

definition FirstIndex :: "faults \<Rightarrow> BuntStore \<Rightarrow> uint64 \<times> error option" where
  "FirstIndex f b =
     (case View f (db b) (Inr [])
             (\<lambda>tx. tx_AscendGreaterOrEqual f 0 tx dbLogs index_visitor (Inr [])) of
        (Inl e, err) \<Rightarrow> (0, Some e)
      | (Inr snum, err) \<Rightarrow>
          if err \<noteq> None \<or> snum = [] then (0, err) else (stringToUint64 snum, None))"

definition LastIndex :: "faults \<Rightarrow> BuntStore \<Rightarrow> uint64 \<times> error option" where
  "LastIndex f b =
     (case View f (db b) (Inr [])
             (\<lambda>tx. tx_DescendGreaterThan f 0 tx dbLogs index_visitor (Inr [])) of
        (Inl e, err) \<Rightarrow> (0, Some e)
      | (Inr snum, err) \<Rightarrow>
          if err \<noteq> None \<or> snum = [] then (0, err) else (stringToUint64 snum, None))"

text \<open>\<^verbatim>\<open>GetLog\<close> returns an error or fills in the entry it was given.\<close>

definition GetLog :: "faults \<Rightarrow> BuntStore \<Rightarrow> uint64 \<Rightarrow> Log \<Rightarrow> error + Log" where
  "GetLog f b idx log =
     (case View f (db b) []
             (\<lambda>tx. case tx_Get f 0 tx (dbLogs @ uint64ToString idx) of
                      Inl verr \<Rightarrow> ([], Some verr)
                    | Inr val \<Rightarrow> (val, None)) of
        (val, Some err) \<Rightarrow> if err = ErrNotFound then Inl ErrLogNotFound else Inl err
      | (val, None) \<Rightarrow> decodeLog val log)"

text \<open>
  \<^verbatim>\<open>StoreLogs\<close>: one write transaction whose function walks the entries, encodes
  each and sets it under the log prefix followed by the index key; the first error ends
  the function. \<open>n\<close> counts the calls made on the transaction.
\<close>

fun StoreLogs_loop :: "faults \<Rightarrow> nat \<Rightarrow> Log list \<Rightarrow> items \<Rightarrow> error + items" where
  "StoreLogs_loop f n [] tx = Inr tx"
| "StoreLogs_loop f n (log # logs) tx =
     (let key = [] @ dbLogs @ uint64ToString (Index log) in
      case encodeLog log of
        Inl err \<Rightarrow> Inl err
      | Inr val \<Rightarrow>
          (case tx_Set f n tx key val of
             Inl err \<Rightarrow> Inl err
           | Inr tx' \<Rightarrow> StoreLogs_loop f (Suc n) logs tx'))"

definition StoreLogs :: "faults \<Rightarrow> BuntStore \<Rightarrow> Log list \<Rightarrow> error option \<times> BuntStore" where
  "StoreLogs f b logs =
     (case Update f (db b) (StoreLogs_loop f 0 logs) of (err, db') \<Rightarrow> (err, b\<lparr>db := db'\<rparr>))"

definition StoreLog :: "faults \<Rightarrow> BuntStore \<Rightarrow> Log \<Rightarrow> error option \<times> BuntStore" where
  "StoreLog f b log = StoreLogs f b [log]"

text \<open>
  \<^verbatim>\<open>DeleteRange\<close>: one write transaction whose function runs
  \<^verbatim>\<open>for i := min; i <= max; i++\<close> on 64-bit unsigned \<open>i\<close>, deleting the key of \<open>i\<close> and
  passing over the engine's not-found error. The increment wraps around, and the loop
  may run forever, so the loop and the operation are partial.
\<close>

partial_function (option) DeleteRange_loop ::
  "faults \<Rightarrow> nat \<Rightarrow> uint64 \<Rightarrow> uint64 \<Rightarrow> items \<Rightarrow> (error + items) option" where
  "DeleteRange_loop f n i max' tx =
     (if i \<le> max' then
        (case tx_Delete f n tx (dbLogs @ uint64ToString i) of
           Inl err \<Rightarrow>
             if err \<noteq> ErrNotFound then Some (Inl err)
             else DeleteRange_loop f (Suc n) (i + 1) max' tx
         | Inr tx' \<Rightarrow> DeleteRange_loop f (Suc n) (i + 1) max' tx')
      else Some (Inr tx))"

definition DeleteRange ::
  "faults \<Rightarrow> BuntStore \<Rightarrow> uint64 \<Rightarrow> uint64 \<Rightarrow> (error option \<times> BuntStore) option" where
  "DeleteRange f b min' max' =
     map_option (\<lambda>(err, db'). (err, b\<lparr>db := db'\<rparr>))
       (Update_partial f (db b) (DeleteRange_loop f 0 min' max'))"

text \<open>\<^verbatim>\<open>Set\<close> stores a value under the metadata prefix followed by the caller's key.\<close>

definition Set :: "faults \<Rightarrow> BuntStore \<Rightarrow> bytes \<Rightarrow> bytes \<Rightarrow> error option \<times> BuntStore" where
  "Set f b k v =
     (case Update f (db b) (\<lambda>tx. tx_Set f 0 tx (dbConf @ k) v) of
        (err, db') \<Rightarrow> (err, b\<lparr>db := db'\<rparr>))"

text \<open>
  \<^verbatim>\<open>Get\<close> of the current sources. The result slice \<open>rval\<close> is \<open>nil\<close> (\<open>None\<close>) until
  the function of the transaction has copied a value into it. After the transaction only
  the engine's not-found error is looked at; with any other error the code goes on to the
  final return.
\<close>

definition Get :: "faults \<Rightarrow> BuntStore \<Rightarrow> bytes \<Rightarrow> bytes option \<times> error option" where
  "Get f b k =
     (case View f (db b) None
             (\<lambda>tx. let key = [] @ dbConf @ k in
                    case tx_Get f 0 tx key of
                      Inl err \<Rightarrow> (None, Some err)
                    | Inr val \<Rightarrow> (Some (copy_at (replicate (length val) 0) 0 val), None)) of
        (rval, err) \<Rightarrow>
          if err \<noteq> None \<and> err = Some ErrNotFound then (None, Some ErrKeyNotFound)
          else (let rval = (if rval = None then Some [] else rval) in (rval, None)))"

text \<open>
  \<^verbatim>\<open>Get\<close> of the older snapshot of the store, which returns every error of the
  transaction.
\<close>

definition Get_snapshot :: "faults \<Rightarrow> BuntStore \<Rightarrow> bytes \<Rightarrow> bytes option \<times> error option" where
  "Get_snapshot f b k =
     (case View f (db b) None
             (\<lambda>tx. case tx_Get f 0 tx (dbConf @ k) of
                      Inl err \<Rightarrow> (None, Some err)
                    | Inr sval \<Rightarrow> (Some sval, None)) of
        (val, err) \<Rightarrow>
          if err \<noteq> None \<and> err = Some ErrNotFound then (None, Some ErrKeyNotFound)
          else if err \<noteq> None then (None, err)
          else (val, None))"

text \<open>
  The typed accessors. In the current sources the value is written with the key encoder
  and read with \<^verbatim>\<open>stringToUint64\<close>, which drops the error of the parser; \<open>string(val)\<close>
  of a \<open>nil\<close> slice is the empty string. The older snapshot writes the plain decimal
  numeral and returns the value and the error of the parser.
\<close>

definition SetUint64 :: "faults \<Rightarrow> BuntStore \<Rightarrow> bytes \<Rightarrow> uint64 \<Rightarrow> error option \<times> BuntStore" where
  "SetUint64 f b key val = Set f b key (uint64ToString val)"

definition GetUint64 :: "faults \<Rightarrow> BuntStore \<Rightarrow> bytes \<Rightarrow> uint64 \<times> error option" where
  "GetUint64 f b key =
     (case Get f b key of
        (val, Some err) \<Rightarrow> (0, Some err)
      | (val, None) \<Rightarrow> (stringToUint64 (case val of None \<Rightarrow> [] | Some v \<Rightarrow> v), None))"

definition SetUint64_snapshot ::
  "faults \<Rightarrow> BuntStore \<Rightarrow> bytes \<Rightarrow> uint64 \<Rightarrow> error option \<times> BuntStore" where
  "SetUint64_snapshot f b key val = Set f b key (FormatUint val)"

definition GetUint64_snapshot :: "faults \<Rightarrow> BuntStore \<Rightarrow> bytes \<Rightarrow> uint64 \<times> error option" where
  "GetUint64_snapshot f b key =
     (case Get_snapshot f b key of
        (val, Some err) \<Rightarrow> (0, Some err)
      | (val, None) \<Rightarrow> ParseUint (case val of None \<Rightarrow> [] | Some v \<Rightarrow> v))"

text \<open>
  The keys this package writes: the log prefix followed by an encoded index, or the
  metadata prefix followed by anything. \<open>log_indices\<close> are the indices whose key is
  present.
\<close>

definition is_log_key :: "bytes \<Rightarrow> bool" where
  "is_log_key k \<longleftrightarrow> k = dbLogs @ uint64ToString (stringToUint64 (drop (length dbLogs) k))"

definition is_conf_key :: "bytes \<Rightarrow> bool" where
  "is_conf_key k \<longleftrightarrow> take (length dbConf) k = dbConf"

definition store_keys :: "BuntStore \<Rightarrow> bool" where
  "store_keys b \<longleftrightarrow> list_all (\<lambda>(k, v). is_log_key k \<or> is_conf_key k) (db b)"

definition log_indices :: "BuntStore \<Rightarrow> uint64 set" where
  "log_indices b = {i. dbLogs @ uint64ToString i \<in> fst ` set (db b)}"

text \<open>
  The encoded form of an entry, and the effect on the content of storing one entry.
\<close>

definition entry_bytes :: "Log \<Rightarrow> bytes" where
  "entry_bytes l = le_bytes (Index l) @ le_bytes (Term l) @ Type l # Data l"

definition put_entry :: "items \<Rightarrow> Log \<Rightarrow> items" where
  "put_entry tx l = AList.update (dbLogs @ uint64ToString (Index l)) (entry_bytes l) tx"

section \<open>Properties of the codec\<close>

lemma length_le_bytes: "length (le_bytes v) = 8"
  by (simp add: le_bytes_def)

lemma PutUint64_zeros: "PutUint64 (replicate 8 0) v = Inr (le_bytes v)"
  by (simp add: PutUint64_def le_bytes_def numeral_eq_Suc)

lemma bit_shifted_byte:
  "bit (push_bit k (ucast (ucast (drop_bit k v) :: byte)) :: uint64) n \<longleftrightarrow>
     k \<le> n \<and> n < k + 8 \<and> n < 64 \<and> bit v n"
  by (auto simp add: bit_simps)

lemma bit_low_byte: "bit (ucast (ucast v :: byte) :: uint64) n \<longleftrightarrow> n < 8 \<and> bit v n"
  by (auto simp add: bit_simps)

lemma Uint64_le_bytes: "Uint64 (le_bytes v) = Inr v"
proof -
  have "ucast (ucast v :: byte) OR push_bit 8 (ucast (ucast (drop_bit 8 v) :: byte))
      OR push_bit 16 (ucast (ucast (drop_bit 16 v) :: byte))
      OR push_bit 24 (ucast (ucast (drop_bit 24 v) :: byte))
      OR push_bit 32 (ucast (ucast (drop_bit 32 v) :: byte))
      OR push_bit 40 (ucast (ucast (drop_bit 40 v) :: byte))
      OR push_bit 48 (ucast (ucast (drop_bit 48 v) :: byte))
      OR push_bit 56 (ucast (ucast (drop_bit 56 v) :: byte)) = v" (is "?w = v")
  proof (rule bit_word_eqI)
    fix n :: nat
    assume "n < LENGTH(64)"
    then have n: "n < 64" by simp
    then have "n < 8 \<or> 8 \<le> n \<and> n < 16 \<or> 16 \<le> n \<and> n < 24 \<or> 24 \<le> n \<and> n < 32 \<or>
       32 \<le> n \<and> n < 40 \<or> 40 \<le> n \<and> n < 48 \<or> 48 \<le> n \<and> n < 56 \<or> 56 \<le> n"
      by linarith
    with n show "bit ?w n \<longleftrightarrow> bit v n"
      by (simp add: bit_or_iff bit_shifted_byte bit_low_byte) blast
  qed
  then show ?thesis
    by (simp add: Uint64_def le_bytes_def)
qed

lemma encodeLog_layout:
  "encodeLog l = Inr (le_bytes (Index l) @ le_bytes (Term l) @ Type l # Data l)"
proof -
  let ?n = "length (Data l)"
  let ?buf = "replicate (17 + ?n) (0 :: byte)"
  have s1: "into_slice ?buf 0 8 (\<lambda>b. PutUint64 b (Index l))
      = Inr (le_bytes (Index l) @ replicate (9 + ?n) 0)"
    by (simp add: into_slice_def PutUint64_zeros min_def)
  have s2: "into_slice (le_bytes (Index l) @ replicate (9 + ?n) 0) 8 16 (\<lambda>b. PutUint64 b (Term l))
      = Inr (le_bytes (Index l) @ le_bytes (Term l) @ replicate (Suc ?n) 0)"
    by (simp add: into_slice_def PutUint64_zeros length_le_bytes min_def)
  have s3: "(le_bytes (Index l) @ le_bytes (Term l) @ replicate (Suc ?n) 0)[16 := Type l]
      = le_bytes (Index l) @ le_bytes (Term l) @ Type l # replicate ?n 0"
    by (simp add: list_update_append length_le_bytes)
  have s4: "copy_at (le_bytes (Index l) @ le_bytes (Term l) @ Type l # replicate ?n 0) 17 (Data l)
      = le_bytes (Index l) @ le_bytes (Term l) @ Type l # Data l"
    by (simp add: copy_at_def length_le_bytes)
  show ?thesis
    unfolding encodeLog_def Let_def s1 sum.case s2 s3 s4 ..
qed

lemma decodeLog_layout:
  "decodeLog (le_bytes i @ le_bytes t @ ty # d) l
     = Inr (l\<lparr>Index := i, Term := t, Type := ty, Data := d\<rparr>)"
  by (simp add: decodeLog_def length_le_bytes Uint64_le_bytes nth_append)

section \<open>Properties of the key encoder\<close>

lemma length_pad10: "length (pad10 w n) = w"
  by (induction w arbitrary: n) auto

lemma pad10_zero: "pad10 w 0 = replicate w 48"
  by (induction w) (auto simp: replicate_append_same)

lemma length_digits10: "n < 10 ^ w \<Longrightarrow> 0 < w \<Longrightarrow> length (digits10 n) \<le> w"
proof (induction w arbitrary: n)
  case 0
  then show ?case by simp
next
  case (Suc w)
  show ?case
  proof (cases "n < 10")
    case True
    then show ?thesis by (simp add: digits10.simps)
  next
    case False
    with Suc.prems have "0 < w" by (cases w) auto
    moreover from Suc.prems have "n div 10 < 10 ^ w"
      by (simp add: less_mult_imp_div_less mult.commute)
    ultimately have "length (digits10 (n div 10)) \<le> w" by (rule Suc.IH[rotated])
    with False show ?thesis by (subst digits10.simps) simp
  qed
qed

lemma pad10_digits10:
  "n < 10 ^ w \<Longrightarrow> 0 < w \<Longrightarrow> pad10 w n = replicate (w - length (digits10 n)) 48 @ digits10 n"
proof (induction w arbitrary: n)
  case 0
  then show ?case by simp
next
  case (Suc w)
  show ?case
  proof (cases "n < 10")
    case True
    then show ?thesis by (simp add: digits10.simps pad10_zero)
  next
    case False
    with Suc.prems have w: "0 < w" by (cases w) auto
    from Suc.prems have d: "n div 10 < 10 ^ w"
      by (simp add: less_mult_imp_div_less mult.commute)
    from d w have IH: "pad10 w (n div 10)
        = replicate (w - length (digits10 (n div 10))) 48 @ digits10 (n div 10)"
      by (rule Suc.IH)
    from d w have "length (digits10 (n div 10)) \<le> w" by (rule length_digits10)
    with False IH show ?thesis by (subst (1 2) digits10.simps) (simp add: Suc_diff_le)
  qed
qed

lemma unat_less_10_20: "unat (u :: uint64) < 10 ^ 20"
proof -
  have "unat u < 2 ^ 64" using unsigned_less[of u] by simp
  also have "(2::nat) ^ 64 < 10 ^ 20" by simp
  finally show ?thesis .
qed

lemma uint64ToString_pad10: "uint64ToString u = pad10 20 (unat u)"
proof -
  have l: "length (digits10 (unat u)) \<le> 20"
    using unat_less_10_20 by (rule length_digits10) simp
  have "pad10 20 (unat u) = replicate (20 - length (digits10 (unat u))) 48 @ digits10 (unat u)"
    using unat_less_10_20 by (rule pad10_digits10) simp
  with l show ?thesis
    by (simp add: uint64ToString_def FormatUint_def)
qed

lemma length_uint64ToString: "length (uint64ToString u) = 20"
  by (simp add: uint64ToString_pad10 length_pad10)

lemma unat_digit: "d < 10 \<Longrightarrow> unat (48 + of_nat d :: byte) = 48 + d"
  by (simp add: unat_word_ariths unat_of_nat)

lemma digit_less: "a < b \<Longrightarrow> b < 10 \<Longrightarrow> (48 + of_nat a :: byte) < 48 + of_nat b"
  by (simp add: word_less_nat_alt unat_digit)

lemma lex_append_less:
  fixes xs ys :: "('a :: linorder) list"
  shows "length xs = length ys \<Longrightarrow> xs < ys \<Longrightarrow> xs @ us < ys @ vs"
  by (induction xs ys rule: list_induct2) auto

lemma lex_append_same:
  fixes xs :: "('a :: linorder) list"
  shows "xs @ us < xs @ vs \<longleftrightarrow> us < vs"
  by (induction xs) auto

lemma pad10_mono: "n < m \<Longrightarrow> m < 10 ^ w \<Longrightarrow> pad10 w n < pad10 w m"
proof (induction w arbitrary: n m)
  case 0
  then show ?case by simp
next
  case (Suc w)
  from Suc.prems have le: "n div 10 \<le> m div 10" by (simp add: div_le_mono)
  from Suc.prems have b: "m div 10 < 10 ^ w"
    by (simp add: less_mult_imp_div_less mult.commute)
  show ?case
  proof (cases "n div 10 < m div 10")
    case True
    then have "pad10 w (n div 10) < pad10 w (m div 10)" using b by (rule Suc.IH)
    then show ?thesis by (simp add: lex_append_less length_pad10)
  next
    case False
    with le have eq: "n div 10 = m div 10" by simp
    with Suc.prems have "n mod 10 < m mod 10"
      by (metis div_mult_mod_eq nat_add_left_cancel_less)
    then have "(48 + of_nat (n mod 10) :: byte) < 48 + of_nat (m mod 10)"
      by (rule digit_less) simp
    with eq show ?thesis by (simp add: lex_append_same)
  qed
qed

lemma uint64ToString_mono: "i < j \<Longrightarrow> uint64ToString i < uint64ToString j"
  unfolding uint64ToString_pad10
  by (rule pad10_mono[OF _ unat_less_10_20]) (simp add: word_less_nat_alt)

lemma uint64ToString_less_iff: "uint64ToString i < uint64ToString j \<longleftrightarrow> i < j"
proof
  assume l: "uint64ToString i < uint64ToString j"
  show "i < j"
  proof (rule ccontr)
    assume "\<not> i < j"
    then have "j < i \<or> j = i" by auto
    then show False
    proof
      assume "j < i"
      then have "uint64ToString j < uint64ToString i" by (rule uint64ToString_mono)
      with l show False by simp
    next
      assume "j = i"
      with l show False by simp
    qed
  qed
qed (rule uint64ToString_mono)

lemma uint64ToString_inj: "uint64ToString i = uint64ToString j \<longleftrightarrow> i = j"
proof
  assume e: "uint64ToString i = uint64ToString j"
  have "\<not> i < j" using e uint64ToString_mono[of i j] by auto
  moreover have "\<not> j < i" using e uint64ToString_mono[of j i] by auto
  ultimately show "i = j" by simp
qed simp


lemma ParseUint_loop_append:
  "ParseUint_loop n (xs @ ys) =
     (case ParseUint_loop n xs of (n', None) \<Rightarrow> ParseUint_loop n' ys | (v, Some e) \<Rightarrow> (v, Some e))"
  by (induction xs arbitrary: n) (auto simp: Let_def)

lemma cutoff_val: "unat cutoff = 1844674407370955162"
  by (simp add: cutoff_def)

lemma maxVal_val: "maxVal = - 1"
  by (simp add: maxVal_def)

lemma ParseUint_loop_digit:
  assumes d: "d < 10" and b: "unat n * 10 + d < 2 ^ 64"
  shows "ParseUint_loop n [48 + of_nat d] = (of_nat (unat n * 10 + d), None)"
proof -
  have c: "(48 :: byte) \<le> 48 + of_nat d \<and> (48 + of_nat d :: byte) \<le> 57"
    using d by (simp add: word_le_nat_alt unat_digit)
  have lt: "\<not> cutoff \<le> n"
    using b by (simp add: word_le_nat_alt cutoff_val)
  have u10: "unat (n * 10) = unat n * 10"
    using b by (simp add: unat_word_ariths)
  have ud: "unat (ucast (of_nat d :: byte) :: uint64) = d"
    using d by (simp add: unsigned_ucast_eq unsigned_of_nat take_bit_nat_eq_self)
  have u1: "unat (n * 10 + ucast (of_nat d :: byte)) = unat n * 10 + d"
    using b u10 ud by (simp add: unat_word_ariths)
  have ge: "\<not> n * 10 + ucast (of_nat d :: byte) < n * 10"
    by (simp add: word_less_nat_alt u1 u10)
  have v: "n * 10 + ucast (of_nat d :: byte) = of_nat (unat n * 10 + d)"
    using u1 of_nat_unat[of "n * 10 + ucast (of_nat d :: byte)", where ?'a = uint64] by simp
  show ?thesis
    using c lt ge v by (simp add: Let_def maxVal_val)
qed

lemma unat_of_nat_small: "k < 2 ^ 64 \<Longrightarrow> unat (of_nat k :: uint64) = k"
  by (simp add: unat_of_nat)

lemma ParseUint_loop_pad10:
  "m < 10 ^ w \<Longrightarrow> unat n * 10 ^ w + m < 2 ^ 64 \<Longrightarrow>
     ParseUint_loop n (pad10 w m) = (of_nat (unat n * 10 ^ w + m), None)"
proof (induction w arbitrary: m)
  case 0
  then show ?case by simp
next
  case (Suc w)
  let ?k = "unat n * 10 ^ w + m div 10"
  from Suc.prems have m: "m div 10 < 10 ^ w"
    by (simp add: less_mult_imp_div_less mult.commute)
  have split: "unat n * 10 ^ Suc w + m = ?k * 10 + m mod 10"
    by (simp add: algebra_simps)
  with Suc.prems have k: "?k * 10 + m mod 10 < 2 ^ 64" by simp
  have "?k \<le> ?k * 10 + m mod 10" by simp
  from this k have k': "?k < 2 ^ 64" by (rule le_less_trans)
  from m k' have IH: "ParseUint_loop n (pad10 w (m div 10)) = (of_nat ?k, None)"
    by (rule Suc.IH)
  have uk: "unat (of_nat ?k :: uint64) = ?k"
    using k' by (rule unat_of_nat_small)
  have d: "m mod 10 < 10" by simp
  have "unat (of_nat ?k :: uint64) * 10 + m mod 10 < 2 ^ 64"
    unfolding uk by (rule k)
  with d have "ParseUint_loop (of_nat ?k) [48 + of_nat (m mod 10)]
      = (of_nat (unat (of_nat ?k :: uint64) * 10 + m mod 10), None)"
    by (rule ParseUint_loop_digit)
  then have step: "ParseUint_loop (of_nat ?k) [48 + of_nat (m mod 10)]
      = (of_nat (unat n * 10 ^ Suc w + m), None)"
    unfolding uk split .
  show ?case
    by (simp only: pad10.simps ParseUint_loop_append IH prod.case option.case step)
qed

lemma ParseUint_uint64ToString: "ParseUint (uint64ToString u) = (u, None)"
proof -
  have "uint64ToString u \<noteq> []"
    using length_uint64ToString[of u] by auto
  moreover have "ParseUint_loop 0 (pad10 20 (unat u)) = (u, None)"
    using ParseUint_loop_pad10[OF unat_less_10_20, of 0 u] unsigned_less[of u, where ?'a = nat]
    by simp
  ultimately show ?thesis
    by (simp add: ParseUint_def uint64ToString_pad10)
qed

lemma stringToUint64_uint64ToString: "stringToUint64 (uint64ToString u) = u"
  by (simp add: stringToUint64_def ParseUint_uint64ToString)

lemma uint64ToString_binary_le_bytes: "uint64ToString_binary u = Inr (le_bytes u)"
  by (simp add: uint64ToString_binary_def PutUint64_zeros)

text \<open>
  Claim C1. Order preservation holds for the decimal key (lemma \<open>uint64ToString_mono\<close>
  above), but the little-endian binary key of the older snapshot breaks it: 1 is smaller
  than 256, yet the key of 256 sorts strictly before the key of 1.
\<close>

theorem uint64ToString_binary_not_monotone:
  "(1 :: uint64) < 256 \<and>
   uint64ToString_binary 1 = Inr [1, 0, 0, 0, 0, 0, 0, 0] \<and>
   uint64ToString_binary 256 = Inr [0, 1, 0, 0, 0, 0, 0, 0] \<and>
   [0, 1, 0, 0, 0, 0, 0, 0] < [1 :: byte, 0, 0, 0, 0, 0, 0, 0]"
  by (simp add: uint64ToString_binary_le_bytes le_bytes_def)

text \<open>
  Claim C2. For every log entry (any index, any term, any type tag, any payload, the empty
  payload included) encoding succeeds, and decoding the encoded bytes succeeds and gives an
  entry with the same index, term, type and payload bytes, whatever entry the decoder was
  handed to fill in.
\<close>

theorem decodeLog_encodeLog:
  "\<exists>buf. encodeLog e = Inr buf \<and>
     (\<exists>r. decodeLog buf l0 = Inr r \<and>
        Index r = Index e \<and> Term r = Term e \<and> Type r = Type e \<and> Data r = Data e)"
  by (simp add: encodeLog_layout decodeLog_layout)

text \<open>
  Claim C7. Decoding fails, with the invalid-buffer error, exactly when the input has fewer
  than 17 bytes. Every input of at least 17 bytes decodes, and the type of the result is
  the byte at offset 16, whatever its value.
\<close>

theorem decodeLog_fails_iff_short:
  "(decodeLog buf l = Inl ErrInvalidBuffer \<longleftrightarrow> length buf < 17) \<and>
   ((\<exists>e. decodeLog buf l = Inl e) \<longleftrightarrow> length buf < 17) \<and>
   (\<not> length buf < 17 \<longrightarrow> (\<exists>r. decodeLog buf l = Inr r \<and> Type r = buf ! 16))"
  by (simp add: decodeLog_def Uint64_def)

theorem decodeLog_fails_iff_short_witness:
  "\<not> length (replicate 16 0 @ [200 :: byte]) < 17 \<and>
   (\<exists>r. decodeLog (replicate 16 0 @ [200]) \<lparr>Index = 0, Term = 0, Type = 0, Data = []\<rparr> = Inr r
      \<and> Type r = 200)"
  using decodeLog_fails_iff_short
    [of "replicate 16 0 @ [200]" "\<lparr>Index = 0, Term = 0, Type = 0, Data = []\<rparr>"]
  by (simp add: nth_append)

section \<open>Properties of the store\<close>

lemma dbLogs_bytes: "dbLogs = [108, 58]"
  by (simp add: dbLogs_def)

lemma dbConf_bytes: "dbConf = [99, 58]"
  by (simp add: dbConf_def)

lemma copy_at_fresh: "copy_at (replicate (length val) 0) 0 val = val"
  by (simp add: copy_at_def)

lemma Get_value:
  "begin_err f = None \<Longrightarrow> op_err f 0 = None \<Longrightarrow> map_of (db b) (dbConf @ k) = Some v \<Longrightarrow>
     Get f b k = (Some v, None)"
  by (simp add: Get_def View_def tx_Get_def copy_at_fresh)

lemma Get_absent:
  "begin_err f = None \<Longrightarrow> op_err f 0 = None \<Longrightarrow> map_of (db b) (dbConf @ k) = None \<Longrightarrow>
     Get f b k = (None, Some ErrKeyNotFound)"
  by (simp add: Get_def View_def tx_Get_def)

lemma Get_begin_error:
  "begin_err f = Some e \<Longrightarrow> e \<noteq> ErrNotFound \<Longrightarrow> Get f b k = (Some [], None)"
  by (simp add: Get_def View_def)

lemma Get_read_error:
  "begin_err f = None \<Longrightarrow> op_err f 0 = Some e \<Longrightarrow> e \<noteq> ErrNotFound \<Longrightarrow>
     Get f b k = (Some [], None)"
  by (simp add: Get_def View_def tx_Get_def)

lemma Get_snapshot_absent:
  "begin_err f = None \<Longrightarrow> op_err f 0 = None \<Longrightarrow> map_of (db b) (dbConf @ k) = None \<Longrightarrow>
     Get_snapshot f b k = (None, Some ErrKeyNotFound)"
  by (simp add: Get_snapshot_def View_def tx_Get_def)

lemma Get_snapshot_begin_error:
  "begin_err f = Some e \<Longrightarrow> e \<noteq> ErrNotFound \<Longrightarrow> Get_snapshot f b k = (None, Some e)"
  by (simp add: Get_snapshot_def View_def)

lemma Get_snapshot_read_error:
  "begin_err f = None \<Longrightarrow> op_err f 0 = Some e \<Longrightarrow> e \<noteq> ErrNotFound \<Longrightarrow>
     Get_snapshot f b k = (None, Some e)"
  by (simp add: Get_snapshot_def View_def tx_Get_def)

text \<open>
  Claim C4. An absent key gives the typed not-found condition (lemma \<open>Get_absent\<close>), but
  \<^verbatim>\<open>Get\<close> of the current sources does not hand an engine error to its caller: when the
  read transaction cannot start, or when the read inside it fails, with an error other
  than not-found, the call returns an empty value and no error, even though a value is
  stored under the key. \<^verbatim>\<open>Get\<close> of the older snapshot returns the error.
\<close>

theorem Get_drops_engine_error:
  "Get \<lparr>begin_err = Some (ErrEngine 0), op_err = (\<lambda>n. None), commit_err = None\<rparr>
       \<lparr>db = [(dbConf @ [107], [118])], path = []\<rparr> [107] = (Some [], None) \<and>
   Get \<lparr>begin_err = None, op_err = (\<lambda>n. Some (ErrEngine 0)), commit_err = None\<rparr>
       \<lparr>db = [(dbConf @ [107], [118])], path = []\<rparr> [107] = (Some [], None) \<and>
   Get_snapshot \<lparr>begin_err = Some (ErrEngine 0), op_err = (\<lambda>n. None), commit_err = None\<rparr>
       \<lparr>db = [(dbConf @ [107], [118])], path = []\<rparr> [107] = (None, Some (ErrEngine 0))"
  by (simp add: Get_def Get_snapshot_def View_def tx_Get_def)

lemma GetUint64_absent:
  "begin_err f = None \<Longrightarrow> op_err f 0 = None \<Longrightarrow> map_of (db b) (dbConf @ k) = None \<Longrightarrow>
     GetUint64 f b k = (0, Some ErrKeyNotFound)"
  by (simp add: GetUint64_def Get_absent)

lemma GetUint64_value:
  "begin_err f = None \<Longrightarrow> op_err f 0 = None \<Longrightarrow> map_of (db b) (dbConf @ k) = Some v \<Longrightarrow>
     GetUint64 f b k = (stringToUint64 v, None)"
  by (simp add: GetUint64_def Get_value)

lemma GetUint64_snapshot_value:
  "begin_err f = None \<Longrightarrow> op_err f 0 = None \<Longrightarrow> map_of (db b) (dbConf @ k) = Some v \<Longrightarrow>
     GetUint64_snapshot f b k = ParseUint v"
  by (simp add: GetUint64_snapshot_def Get_snapshot_def View_def tx_Get_def)

lemma no_faults_sel:
  "begin_err no_faults = None" "op_err no_faults n = None" "commit_err no_faults = None"
  by (simp_all add: no_faults_def)

lemma Set_no_faults: "Set no_faults b k v = (None, b\<lparr>db := AList.update (dbConf @ k) v (db b)\<rparr>)"
  by (simp add: Set_def Update_def tx_end_def tx_Set_def no_faults_def)

text \<open>
  Claim C8. The not-found condition of an absent key is passed on (lemma
  \<open>GetUint64_absent\<close>), but a stored value that is not a numeral gives no parse failure
  in the current sources: after \<^verbatim>\<open>Set(k, "abc")\<close> the call \<^verbatim>\<open>GetUint64(k)\<close> returns 0
  and no error. \<^verbatim>\<open>GetUint64\<close> of the older snapshot returns the syntax error.
\<close>

theorem GetUint64_malformed_value:
  "Set no_faults \<lparr>db = [], path = []\<rparr> [107] [97, 98, 99]
     = (None, \<lparr>db = [(dbConf @ [107], [97, 98, 99])], path = []\<rparr>) \<and>
   GetUint64 no_faults \<lparr>db = [(dbConf @ [107], [97, 98, 99])], path = []\<rparr> [107] = (0, None) \<and>
   GetUint64_snapshot no_faults \<lparr>db = [(dbConf @ [107], [97, 98, 99])], path = []\<rparr> [107]
     = (0, Some ErrSyntax)"
  by (simp add: Set_no_faults GetUint64_value GetUint64_snapshot_value no_faults_sel
      stringToUint64_def ParseUint_def)

lemma encodeLog_entry_bytes: "encodeLog l = Inr (entry_bytes l)"
  by (simp add: encodeLog_layout entry_bytes_def)

lemma tx_Set_entry:
  "tx_Set f n tx (dbLogs @ uint64ToString (Index l)) (entry_bytes l) =
     (case op_err f n of Some e \<Rightarrow> Inl e | None \<Rightarrow> Inr (put_entry tx l))"
  by (simp add: tx_Set_def put_entry_def split: option.splits)

lemma find_SomeD: "find P xs = Some x \<Longrightarrow> x \<in> set xs \<and> P x"
  by (induction xs) (auto split: if_splits)

lemma StoreLogs_loop_Inr:
  "StoreLogs_loop f n logs tx = Inr tx' \<Longrightarrow> tx' = foldl put_entry tx logs"
proof (induction logs arbitrary: n tx)
  case Nil
  then show ?case by simp
next
  case (Cons l logs)
  then show ?case
    by (auto simp: encodeLog_entry_bytes tx_Set_entry split: option.splits)
qed

lemma StoreLogs_loop_ok:
  "(\<forall>j<length logs. op_err f (n + j) = None) \<Longrightarrow>
     StoreLogs_loop f n logs tx = Inr (foldl put_entry tx logs)"
proof (induction logs arbitrary: n tx)
  case Nil
  then show ?case by simp
next
  case (Cons l logs)
  from Cons.prems have h: "op_err f n = None" by force
  from Cons.prems have "\<forall>j<length logs. op_err f (Suc n + j) = None" by force
  then have "StoreLogs_loop f (Suc n) logs (put_entry tx l) = Inr (foldl put_entry (put_entry tx l) logs)"
    by (rule Cons.IH)
  with h show ?case
    by (simp add: encodeLog_entry_bytes tx_Set_entry)
qed

lemma StoreLogs_loop_fail:
  "k < length logs \<Longrightarrow> (\<forall>j<k. op_err f (n + j) = None) \<Longrightarrow> op_err f (n + k) = Some e \<Longrightarrow>
     StoreLogs_loop f n logs tx = Inl e"
proof (induction logs arbitrary: n k tx)
  case Nil
  then show ?case by simp
next
  case (Cons l logs)
  show ?case
  proof (cases k)
    case 0
    with Cons.prems show ?thesis
      by (simp add: encodeLog_entry_bytes tx_Set_entry)
  next
    case (Suc k')
    with Cons.prems have h: "op_err f n = None" by force
    from Suc Cons.prems have "k' < length logs" by simp
    moreover from Suc Cons.prems have "\<forall>j<k'. op_err f (Suc n + j) = None" by force
    moreover from Suc Cons.prems have "op_err f (Suc n + k') = Some e" by simp
    ultimately have "StoreLogs_loop f (Suc n) logs (put_entry tx l) = Inl e"
      by (rule Cons.IH)
    with h show ?thesis
      by (simp add: encodeLog_entry_bytes tx_Set_entry)
  qed
qed

lemma map_of_put_entries:
  "map_of (foldl put_entry tx logs) k =
     (case find (\<lambda>l. dbLogs @ uint64ToString (Index l) = k) (rev logs) of
        None \<Rightarrow> map_of tx k
      | Some l \<Rightarrow> Some (entry_bytes l))"
  by (induction logs rule: rev_induct) (auto simp: put_entry_def update_conv')

lemma append_same_eq_bytes: "dbLogs @ x = dbLogs @ y \<longleftrightarrow> x = y"
  by simp

lemma put_entries_present:
  assumes "l \<in> set logs"
  shows "\<exists>l'\<in>set logs. Index l' = Index l \<and>
     map_of (foldl put_entry tx logs) (dbLogs @ uint64ToString (Index l)) = Some (entry_bytes l')"
proof -
  let ?P = "\<lambda>l'. dbLogs @ uint64ToString (Index l') = dbLogs @ uint64ToString (Index l)"
  from assms have "\<exists>x\<in>set (rev logs). ?P x" by auto
  then obtain l' where f: "find ?P (rev logs) = Some l'"
    by (cases "find ?P (rev logs)") (auto simp: find_None_iff)
  then have "l' \<in> set logs" and "?P l'"
    by (auto dest: find_SomeD)
  then have "Index l' = Index l" by (simp add: uint64ToString_inj)
  with f \<open>l' \<in> set logs\<close> show ?thesis
    by (auto simp: map_of_put_entries)
qed

lemma StoreLogs_failure_unchanged:
  "fst (StoreLogs f b logs) \<noteq> None \<Longrightarrow> snd (StoreLogs f b logs) = b"
  by (auto simp: StoreLogs_def Update_def tx_end_def split: option.splits sum.splits)

lemma StoreLogs_success:
  "fst (StoreLogs f b logs) = None \<Longrightarrow>
     snd (StoreLogs f b logs) = b\<lparr>db := foldl put_entry (db b) logs\<rparr>"
  by (auto simp: StoreLogs_def Update_def tx_end_def split: option.splits sum.splits
      dest: StoreLogs_loop_Inr)

lemma StoreLogs_fault:
  assumes "begin_err f = None" "k < length logs" "\<forall>j<k. op_err f j = None" "op_err f k = Some e"
  shows "StoreLogs f b logs = (Some e, b)"
proof -
  have "StoreLogs_loop f 0 logs (db b) = Inl e"
    using assms by (intro StoreLogs_loop_fail[where k = k]) simp_all
  with assms(1) show ?thesis
    by (simp add: StoreLogs_def Update_def tx_end_def)
qed

lemma StoreLogs_ok:
  assumes "begin_err f = None" "\<forall>j<length logs. op_err f j = None" "commit_err f = None"
  shows "StoreLogs f b logs = (None, b\<lparr>db := foldl put_entry (db b) logs\<rparr>)"
proof -
  have "StoreLogs_loop f 0 logs (db b) = Inr (foldl put_entry (db b) logs)"
    using assms by (intro StoreLogs_loop_ok) simp
  with assms show ?thesis
    by (simp add: StoreLogs_def Update_def tx_end_def)
qed

lemma StoreLogs_begin_fault: "begin_err f = Some e \<Longrightarrow> StoreLogs f b logs = (Some e, b)"
  by (simp add: StoreLogs_def Update_def)

lemma StoreLogs_commit_fault:
  "begin_err f = None \<Longrightarrow> \<forall>j<length logs. op_err f j = None \<Longrightarrow> commit_err f = Some e \<Longrightarrow>
     StoreLogs f b logs = (Some e, b)"
  using StoreLogs_loop_ok[of logs f 0 "db b"]
  by (simp add: StoreLogs_def Update_def tx_end_def)

text \<open>
  Claim C3. \<^verbatim>\<open>StoreLogs\<close> is all or nothing. Whenever it returns an error the store is
  what it was before the call. Whenever it returns no error every entry of the batch is
  present under its key, with the encoding of an entry of the batch that has this index
  (the last one, when an index occurs twice). If the transaction starts and the call on
  the engine for entry \<open>k\<close> is the first to fail, with error \<open>e\<close>, the call returns \<open>e\<close>
  and the store is unchanged, so the entries before \<open>k\<close> are not committed; the same when
  the commit fails. Encoding itself never fails (lemma \<open>encodeLog_entry_bytes\<close>).
\<close>

theorem StoreLogs_all_or_nothing:
  "(fst (StoreLogs f b logs) \<noteq> None \<longrightarrow> snd (StoreLogs f b logs) = b) \<and>
   (fst (StoreLogs f b logs) = None \<longrightarrow>
      (\<forall>l\<in>set logs. \<exists>l'\<in>set logs. Index l' = Index l \<and>
         map_of (db (snd (StoreLogs f b logs))) (dbLogs @ uint64ToString (Index l))
           = Some (entry_bytes l'))) \<and>
   (begin_err f = None \<and> k < length logs \<and> (\<forall>j<k. op_err f j = None) \<and> op_err f k = Some e
      \<longrightarrow> StoreLogs f b logs = (Some e, b)) \<and>
   (begin_err f = None \<and> (\<forall>j<length logs. op_err f j = None) \<and> commit_err f = Some e
      \<longrightarrow> StoreLogs f b logs = (Some e, b)) \<and>
   (begin_err f = None \<and> (\<forall>j<length logs. op_err f j = None) \<and> commit_err f = None
      \<longrightarrow> fst (StoreLogs f b logs) = None)"
proof (intro conjI impI)
  show "snd (StoreLogs f b logs) = b" if "fst (StoreLogs f b logs) \<noteq> None"
    using that by (rule StoreLogs_failure_unchanged)
  show "\<forall>l\<in>set logs. \<exists>l'\<in>set logs. Index l' = Index l \<and>
         map_of (db (snd (StoreLogs f b logs))) (dbLogs @ uint64ToString (Index l))
           = Some (entry_bytes l')" if "fst (StoreLogs f b logs) = None"
    using that by (simp add: StoreLogs_success put_entries_present)
  show "StoreLogs f b logs = (Some e, b)"
    if "begin_err f = None \<and> k < length logs \<and> (\<forall>j<k. op_err f j = None) \<and> op_err f k = Some e"
    using that by (intro StoreLogs_fault[where k = k]) simp_all
  show "StoreLogs f b logs = (Some e, b)"
    if "begin_err f = None \<and> (\<forall>j<length logs. op_err f j = None) \<and> commit_err f = Some e"
    using that by (intro StoreLogs_commit_fault) simp_all
  show "fst (StoreLogs f b logs) = None"
    if "begin_err f = None \<and> (\<forall>j<length logs. op_err f j = None) \<and> commit_err f = None"
    using that by (simp add: StoreLogs_ok)
qed


theorem StoreLogs_all_or_nothing_witness:
  "(begin_err \<lparr>begin_err = None, op_err = (\<lambda>n. if n = 1 then Some (ErrEngine 7) else None),
                commit_err = None\<rparr> = None \<and>
    (1 :: nat) < length [\<lparr>Index = 1, Term = 1, Type = 0, Data = [108]\<rparr>,
                        \<lparr>Index = 2, Term = 1, Type = 0, Data = []\<rparr>] \<and>
    StoreLogs \<lparr>begin_err = None, op_err = (\<lambda>n. if n = 1 then Some (ErrEngine 7) else None),
                commit_err = None\<rparr>
       \<lparr>db = [], path = []\<rparr>
       [\<lparr>Index = 1, Term = 1, Type = 0, Data = [108]\<rparr>,
        \<lparr>Index = 2, Term = 1, Type = 0, Data = []\<rparr>]
      = (Some (ErrEngine 7), \<lparr>db = [], path = []\<rparr>)) \<and>
   (fst (StoreLogs no_faults \<lparr>db = [], path = []\<rparr>
          [\<lparr>Index = 1, Term = 1, Type = 0, Data = [108]\<rparr>,
           \<lparr>Index = 2, Term = 1, Type = 0, Data = []\<rparr>]) = None \<and>
    map_of (db (snd (StoreLogs no_faults \<lparr>db = [], path = []\<rparr>
             [\<lparr>Index = 1, Term = 1, Type = 0, Data = [108]\<rparr>,
              \<lparr>Index = 2, Term = 1, Type = 0, Data = []\<rparr>])))
       (dbLogs @ uint64ToString 1)
      = Some (entry_bytes \<lparr>Index = 1, Term = 1, Type = 0, Data = [108]\<rparr>) \<and>
    map_of (db (snd (StoreLogs no_faults \<lparr>db = [], path = []\<rparr>
             [\<lparr>Index = 1, Term = 1, Type = 0, Data = [108]\<rparr>,
              \<lparr>Index = 2, Term = 1, Type = 0, Data = []\<rparr>])))
       (dbLogs @ uint64ToString 2)
      = Some (entry_bytes \<lparr>Index = 2, Term = 1, Type = 0, Data = []\<rparr>))"
proof (rule conjI)
  let ?f = "\<lparr>begin_err = None, op_err = (\<lambda>n. if n = 1 then Some (ErrEngine 7) else None),
             commit_err = None\<rparr>"
  let ?b = "\<lparr>db = [], path = []\<rparr> :: BuntStore"
  let ?l1 = "\<lparr>Index = 1, Term = 1, Type = 0, Data = [108]\<rparr> :: Log"
  let ?l2 = "\<lparr>Index = 2, Term = 1, Type = 0, Data = []\<rparr> :: Log"
  have h: "begin_err ?f = None \<and> (1 :: nat) < length [?l1, ?l2] \<and>
      (\<forall>j<1. op_err ?f j = None) \<and> op_err ?f 1 = Some (ErrEngine 7)"
    by simp
  with StoreLogs_all_or_nothing[of ?f ?b "[?l1, ?l2]" 1 "ErrEngine 7"]
  have "StoreLogs ?f ?b [?l1, ?l2] = (Some (ErrEngine 7), ?b)" by blast
  with h show "begin_err ?f = None \<and> (1 :: nat) < length [?l1, ?l2] \<and>
      StoreLogs ?f ?b [?l1, ?l2] = (Some (ErrEngine 7), ?b)" by blast
  have g: "begin_err no_faults = None \<and> (\<forall>j<length [?l1, ?l2]. op_err no_faults j = None) \<and>
      commit_err no_faults = None"
    by (simp add: no_faults_sel)
  with StoreLogs_all_or_nothing[of no_faults ?b "[?l1, ?l2]" 0 Panic]
  have s: "fst (StoreLogs no_faults ?b [?l1, ?l2]) = None" by blast
  with StoreLogs_all_or_nothing[of no_faults ?b "[?l1, ?l2]" 0 Panic]
  have "\<forall>l\<in>set [?l1, ?l2]. \<exists>l'\<in>set [?l1, ?l2]. Index l' = Index l \<and>
         map_of (db (snd (StoreLogs no_faults ?b [?l1, ?l2]))) (dbLogs @ uint64ToString (Index l))
           = Some (entry_bytes l')" by blast
  then have "map_of (db (snd (StoreLogs no_faults ?b [?l1, ?l2]))) (dbLogs @ uint64ToString 1)
        = Some (entry_bytes ?l1) \<and>
      map_of (db (snd (StoreLogs no_faults ?b [?l1, ?l2]))) (dbLogs @ uint64ToString 2)
        = Some (entry_bytes ?l2)"
    by simp
  with s show "fst (StoreLogs no_faults ?b [?l1, ?l2]) = None \<and>
      map_of (db (snd (StoreLogs no_faults ?b [?l1, ?l2]))) (dbLogs @ uint64ToString 1)
        = Some (entry_bytes ?l1) \<and>
      map_of (db (snd (StoreLogs no_faults ?b [?l1, ?l2]))) (dbLogs @ uint64ToString 2)
        = Some (entry_bytes ?l2)"
    by blast
qed

lemma dbConf_below_dbLogs: "\<not> dbLogs \<le> dbConf @ k" "\<not> dbLogs < dbConf @ k"
  by (simp_all add: dbLogs_bytes dbConf_bytes)

lemma log_key_not_conf_key: "dbLogs @ s \<noteq> dbConf @ k"
  by (simp add: dbLogs_bytes dbConf_bytes)

lemma StoreLogs_keeps_conf:
  "map_of (db (snd (StoreLogs f b logs))) (dbConf @ k) = map_of (db b) (dbConf @ k)"
proof (cases "fst (StoreLogs f b logs)")
  case None
  have "find (\<lambda>l. dbLogs @ uint64ToString (Index l) = dbConf @ k) (rev logs) = None"
    by (simp add: find_None_iff log_key_not_conf_key)
  with None show ?thesis
    by (simp add: StoreLogs_success map_of_put_entries)
next
  case (Some e)
  then show ?thesis by (simp add: StoreLogs_failure_unchanged)
qed

lemma Set_keeps_logs:
  "map_of (db (snd (Set f b k v))) (dbLogs @ s) = map_of (db b) (dbLogs @ s)"
  by (auto simp: Set_def Update_def tx_end_def tx_Set_def update_conv' log_key_not_conf_key
      split: option.splits)

text \<open>
  Claim C9. The key of a log entry is never the key of a metadata entry, for every index
  and every metadata key. The items visited by the ascending scan from the log prefix
  (\<^verbatim>\<open>FirstIndex\<close>) and by the descending scan down to the log prefix (\<^verbatim>\<open>LastIndex\<close>)
  never include a metadata key. \<^verbatim>\<open>StoreLogs\<close> leaves every metadata key as it was and
  \<^verbatim>\<open>Set\<close> leaves every log key as it was.
\<close>

theorem namespaces_disjoint:
  "dbLogs @ uint64ToString i \<noteq> dbConf @ k \<and>
   (dbConf @ k, v) \<notin> set (ascend_range tx dbLogs) \<and>
   (dbConf @ k, v) \<notin> set (descend_range tx dbLogs) \<and>
   map_of (db (snd (StoreLogs f b logs))) (dbConf @ k) = map_of (db b) (dbConf @ k) \<and>
   map_of (db (snd (Set f b k v))) (dbLogs @ uint64ToString i)
     = map_of (db b) (dbLogs @ uint64ToString i)"
  by (simp add: log_key_not_conf_key ascend_range_def descend_range_def dbConf_below_dbLogs
      StoreLogs_keeps_conf Set_keeps_logs)

lemma iterate_index_visitor:
  "iterate index_visitor kvs (Inr []) =
     (case kvs of
        [] \<Rightarrow> Inr []
      | (k, v) # rest \<Rightarrow>
          if length k < length dbLogs then Inl Panic else Inr (drop (length dbLogs) k))"
  by (cases kvs) (auto simp: index_visitor_def)

lemma set_ascend_range: "set (ascend_range tx p) = {(k, v). (k, v) \<in> set tx \<and> p \<le> k}"
  by (auto simp: ascend_range_def)

lemma set_descend_range: "set (descend_range tx p) = {(k, v). (k, v) \<in> set tx \<and> p < k}"
  by (auto simp: descend_range_def)

lemma sorted_ascend_range: "sorted (map fst (ascend_range tx p))"
  by (simp add: ascend_range_def sorted_filter)

lemma sorted_descend_range: "sorted (rev (map fst (descend_range tx p)))"
  by (simp add: descend_range_def rev_map[symmetric] rev_filter[symmetric] sorted_filter)

lemma ascend_range_head:
  assumes "ascend_range tx p = (k, v) # rest"
  shows "(k, v) \<in> set tx" and "p \<le> k"
    and "\<And>k' v'. (k', v') \<in> set tx \<Longrightarrow> p \<le> k' \<Longrightarrow> k \<le> k'"
proof -
  have "(k, v) \<in> set (ascend_range tx p)" by (simp add: assms)
  then show "(k, v) \<in> set tx" and "p \<le> k" by (simp_all add: set_ascend_range)
  fix k' v'
  assume "(k', v') \<in> set tx" and "p \<le> k'"
  then have "(k', v') \<in> set ((k, v) # rest)"
    unfolding assms[symmetric] by (simp add: set_ascend_range)
  moreover have "sorted (map fst ((k, v) # rest))"
    unfolding assms[symmetric] by (rule sorted_ascend_range)
  ultimately show "k \<le> k'" by auto
qed

lemma descend_range_head:
  assumes "descend_range tx p = (k, v) # rest"
  shows "(k, v) \<in> set tx" and "p < k"
    and "\<And>k' v'. (k', v') \<in> set tx \<Longrightarrow> p < k' \<Longrightarrow> k' \<le> k"
proof -
  have "(k, v) \<in> set (descend_range tx p)" by (simp add: assms)
  then show "(k, v) \<in> set tx" and "p < k" by (simp_all add: set_descend_range)
  fix k' v'
  assume "(k', v') \<in> set tx" and "p < k'"
  then have "(k', v') \<in> set ((k, v) # rest)"
    unfolding assms[symmetric] by (simp add: set_descend_range)
  moreover have "sorted (rev (map fst ((k, v) # rest)))"
    unfolding assms[symmetric] by (rule sorted_descend_range)
  ultimately show "k' \<le> k" by (auto simp: sorted_append)
qed

lemma is_log_key_iff: "is_log_key k \<longleftrightarrow> (\<exists>i. k = dbLogs @ uint64ToString i)"
proof
  assume "is_log_key k"
  then show "\<exists>i. k = dbLogs @ uint64ToString i"
    unfolding is_log_key_def by blast
next
  assume "\<exists>i. k = dbLogs @ uint64ToString i"
  then show "is_log_key k"
    by (auto simp: is_log_key_def stringToUint64_uint64ToString)
qed

lemma is_log_key_encoded: "is_log_key (dbLogs @ uint64ToString i)"
  unfolding is_log_key_iff by blast

lemma conf_key_below: "is_conf_key k \<Longrightarrow> \<not> dbLogs \<le> k"
proof -
  assume "is_conf_key k"
  then have "k = dbConf @ drop (length dbConf) k"
    by (metis append_take_drop_id is_conf_key_def)
  then show ?thesis
    by (metis dbConf_below_dbLogs(1))
qed

lemma lex_append_same_le:
  fixes xs :: "('a :: linorder) list"
  shows "xs @ us \<le> xs @ vs \<longleftrightarrow> us \<le> vs"
  by (induction xs) auto

lemma log_key_above: "dbLogs < dbLogs @ uint64ToString i"
proof -
  have "uint64ToString i \<noteq> []" using length_uint64ToString[of i] by auto
  then have "[] < uint64ToString i" by (cases "uint64ToString i") auto
  then have "dbLogs @ [] < dbLogs @ uint64ToString i" by (simp only: lex_append_same)
  then show ?thesis by simp
qed

lemma log_key_le_iff: "dbLogs @ uint64ToString i \<le> dbLogs @ uint64ToString j \<longleftrightarrow> i \<le> j"
  by (auto simp: lex_append_same le_less uint64ToString_less_iff uint64ToString_inj)

lemma store_keysD:
  "store_keys b \<Longrightarrow> (k, v) \<in> set (db b) \<Longrightarrow> is_log_key k \<or> is_conf_key k"
  by (auto simp: store_keys_def list_all_iff)

lemma log_indices_iff: "i \<in> log_indices b \<longleftrightarrow> (\<exists>v. (dbLogs @ uint64ToString i, v) \<in> set (db b))"
  by (force simp: log_indices_def)

lemma FirstIndex_scan:
  "begin_err f = None \<Longrightarrow> op_err f 0 = None \<Longrightarrow>
     FirstIndex f b =
       (case ascend_range (db b) dbLogs of
          [] \<Rightarrow> (0, None)
        | (k, v) # rest \<Rightarrow>
            if length k < length dbLogs then (0, Some Panic)
            else if drop (length dbLogs) k = [] then (0, None)
            else (stringToUint64 (drop (length dbLogs) k), None))"
  by (simp add: FirstIndex_def View_def tx_AscendGreaterOrEqual_def iterate_index_visitor
      split: list.splits)

lemma LastIndex_scan:
  "begin_err f = None \<Longrightarrow> op_err f 0 = None \<Longrightarrow>
     LastIndex f b =
       (case descend_range (db b) dbLogs of
          [] \<Rightarrow> (0, None)
        | (k, v) # rest \<Rightarrow>
            if length k < length dbLogs then (0, Some Panic)
            else if drop (length dbLogs) k = [] then (0, None)
            else (stringToUint64 (drop (length dbLogs) k), None))"
  by (simp add: LastIndex_def View_def tx_DescendGreaterThan_def iterate_index_visitor
      split: list.splits)

lemma scan_log_key:
  "(if length (dbLogs @ uint64ToString i) < length dbLogs then (0, Some Panic)
    else if drop (length dbLogs) (dbLogs @ uint64ToString i) = [] then (0, None)
    else (stringToUint64 (drop (length dbLogs) (dbLogs @ uint64ToString i)), None)) = (i, None)"
  using length_uint64ToString[of i] by (auto simp: stringToUint64_uint64ToString)

lemma FirstIndex_correct:
  assumes ok: "begin_err f = None" "op_err f 0 = None" and inv: "store_keys b"
  shows "FirstIndex f b = ((if log_indices b = {} then 0 else Min (log_indices b)), None)"
proof (cases "ascend_range (db b) dbLogs")
  case Nil
  have "log_indices b = {}"
  proof (rule ccontr)
    assume "log_indices b \<noteq> {}"
    then obtain i v where "(dbLogs @ uint64ToString i, v) \<in> set (db b)"
      by (auto simp: log_indices_iff)
    moreover have "dbLogs \<le> dbLogs @ uint64ToString i"
      using log_key_above[of i] by simp
    ultimately have "(dbLogs @ uint64ToString i, v) \<in> set (ascend_range (db b) dbLogs)"
      by (simp add: set_ascend_range)
    with Nil show False by simp
  qed
  with Nil ok show ?thesis by (simp add: FirstIndex_scan)
next
  case (Cons kv rest)
  obtain k v where kv: "kv = (k, v)" by (cases kv)
  note hd = ascend_range_head[OF Cons[unfolded kv]]
  from inv hd(1) have "is_log_key k \<or> is_conf_key k" by (rule store_keysD)
  with hd(2) have "is_log_key k" using conf_key_below by blast
  then obtain i0 where k: "k = dbLogs @ uint64ToString i0" by (auto simp: is_log_key_iff)
  with hd(1) have mem: "i0 \<in> log_indices b" by (auto simp: log_indices_iff)
  have least: "i0 \<le> i" if "i \<in> log_indices b" for i
  proof -
    from that obtain v' where "(dbLogs @ uint64ToString i, v') \<in> set (db b)"
      by (auto simp: log_indices_iff)
    moreover have "dbLogs \<le> dbLogs @ uint64ToString i"
      using log_key_above[of i] by simp
    ultimately have "k \<le> dbLogs @ uint64ToString i" by (rule hd(3))
    then show ?thesis by (simp add: k log_key_le_iff)
  qed
  have "Min (log_indices b) = i0"
    by (rule Min_eqI) (use mem least in auto)
  moreover from mem have "log_indices b \<noteq> {}" by auto
  ultimately show ?thesis
    using ok Cons kv k by (simp add: FirstIndex_scan scan_log_key del: length_append)
qed

lemma LastIndex_correct:
  assumes ok: "begin_err f = None" "op_err f 0 = None" and inv: "store_keys b"
  shows "LastIndex f b = ((if log_indices b = {} then 0 else Max (log_indices b)), None)"
proof (cases "descend_range (db b) dbLogs")
  case Nil
  have "log_indices b = {}"
  proof (rule ccontr)
    assume "log_indices b \<noteq> {}"
    then obtain i v where "(dbLogs @ uint64ToString i, v) \<in> set (db b)"
      by (auto simp: log_indices_iff)
    then have "(dbLogs @ uint64ToString i, v) \<in> set (descend_range (db b) dbLogs)"
      by (simp add: set_descend_range log_key_above)
    with Nil show False by simp
  qed
  with Nil ok show ?thesis by (simp add: LastIndex_scan)
next
  case (Cons kv rest)
  obtain k v where kv: "kv = (k, v)" by (cases kv)
  note hd = descend_range_head[OF Cons[unfolded kv]]
  from inv hd(1) have "is_log_key k \<or> is_conf_key k" by (rule store_keysD)
  with hd(2) have "is_log_key k" using conf_key_below by (auto simp: le_less)
  then obtain i0 where k: "k = dbLogs @ uint64ToString i0" by (auto simp: is_log_key_iff)
  with hd(1) have mem: "i0 \<in> log_indices b" by (auto simp: log_indices_iff)
  have greatest: "i \<le> i0" if "i \<in> log_indices b" for i
  proof -
    from that obtain v' where "(dbLogs @ uint64ToString i, v') \<in> set (db b)"
      by (auto simp: log_indices_iff)
    then have "dbLogs @ uint64ToString i \<le> k" using log_key_above[of i] by (rule hd(3))
    then show ?thesis by (simp add: k log_key_le_iff)
  qed
  have "Max (log_indices b) = i0"
    by (rule Max_eqI) (use mem greatest in auto)
  moreover from mem have "log_indices b \<noteq> {}" by auto
  ultimately show ?thesis
    using ok Cons kv k by (simp add: LastIndex_scan scan_log_key del: length_append)
qed


lemma set_update_subset: "set (AList.update k v al) \<subseteq> insert (k, v) (set al)"
  by (induction al) auto

lemma set_delete_subset: "set (AList.delete k al) \<subseteq> set al"
  by (induction al) auto

lemma store_keys_empty: "store_keys \<lparr>db = [], path = p\<rparr>"
  by (simp add: store_keys_def)

lemma store_keys_put_entry:
  "list_all (\<lambda>(k, v). is_log_key k \<or> is_conf_key k) tx \<Longrightarrow>
     list_all (\<lambda>(k, v). is_log_key k \<or> is_conf_key k) (put_entry tx l)"
  using set_update_subset[of "dbLogs @ uint64ToString (Index l)" "entry_bytes l" tx]
  by (auto simp: list_all_iff put_entry_def is_log_key_iff)

lemma store_keys_put_entries:
  "list_all (\<lambda>(k, v). is_log_key k \<or> is_conf_key k) tx \<Longrightarrow>
     list_all (\<lambda>(k, v). is_log_key k \<or> is_conf_key k) (foldl put_entry tx logs)"
  by (induction logs arbitrary: tx) (simp_all add: store_keys_put_entry)

lemma store_keys_StoreLogs: "store_keys b \<Longrightarrow> store_keys (snd (StoreLogs f b logs))"
proof (cases "fst (StoreLogs f b logs)")
  case None
  assume "store_keys b"
  with None show ?thesis
    by (simp add: StoreLogs_success store_keys_def store_keys_put_entries)
next
  case (Some e)
  assume "store_keys b"
  with Some show ?thesis by (simp add: StoreLogs_failure_unchanged)
qed

lemma store_keys_Set: "store_keys b \<Longrightarrow> store_keys (snd (Set f b k v))"
  using set_update_subset[of "dbConf @ k" v "db b"]
  by (auto simp: Set_def Update_def tx_end_def tx_Set_def store_keys_def list_all_iff
      is_conf_key_def split: option.splits)

lemma StoreLogs_three:
  assumes "Index l1 = 1" "Index l2 = 2" "Index l3 = 3"
  shows "StoreLogs no_faults \<lparr>db = [], path = p\<rparr> [l1, l2, l3] =
     (None, \<lparr>db = [(dbLogs @ uint64ToString 1, entry_bytes l1),
                     (dbLogs @ uint64ToString 2, entry_bytes l2),
                     (dbLogs @ uint64ToString 3, entry_bytes l3)], path = p\<rparr>)"
  using assms by (simp add: StoreLogs_ok no_faults_sel put_entry_def uint64ToString_inj)

lemma log_indices_three:
  "log_indices \<lparr>db = [(dbLogs @ uint64ToString 1, e1), (dbLogs @ uint64ToString 2, e2),
                       (dbLogs @ uint64ToString 3, e3)], path = p\<rparr> = {1, 2, 3}"
  by (auto simp: log_indices_def uint64ToString_inj)

lemma store_keys_three:
  "store_keys \<lparr>db = [(dbLogs @ uint64ToString 1, e1), (dbLogs @ uint64ToString 2, e2),
                       (dbLogs @ uint64ToString 3, e3)], path = p\<rparr>"
  by (simp add: store_keys_def is_log_key_encoded)

lemma Min_Max_three: "Min {1, 2, 3 :: uint64} = 1" "Max {1, 2, 3 :: uint64} = 3"
  by simp_all

text \<open>
  Claim C5. Let the engine answer the read (the transaction starts and the scan does not
  fail), and let the store hold only keys this package writes, which is true of the empty
  store and is kept by \<^verbatim>\<open>StoreLogs\<close> and \<^verbatim>\<open>Set\<close> (lemmas \<open>store_keys_empty\<close>,
  \<open>store_keys_StoreLogs\<close>, \<open>store_keys_Set\<close>). When no log key is present,
  \<^verbatim>\<open>FirstIndex\<close> and \<^verbatim>\<open>LastIndex\<close> return 0 and no error. After storing three
  entries with the indices 1, 2 and 3 into an empty store, \<^verbatim>\<open>FirstIndex\<close> returns 1 and
  \<^verbatim>\<open>LastIndex\<close> returns 3. In general \<^verbatim>\<open>FirstIndex\<close> returns the smallest and
  \<^verbatim>\<open>LastIndex\<close> the largest index whose key is present.
\<close>

theorem FirstIndex_LastIndex:
  "(begin_err f = None \<and> op_err f 0 = None \<and> store_keys b \<and> log_indices b = {} \<longrightarrow>
      FirstIndex f b = (0, None) \<and> LastIndex f b = (0, None)) \<and>
   (begin_err f = None \<and> op_err f 0 = None \<and> Index l1 = 1 \<and> Index l2 = 2 \<and> Index l3 = 3 \<longrightarrow>
      fst (StoreLogs no_faults \<lparr>db = [], path = p\<rparr> [l1, l2, l3]) = None \<and>
      FirstIndex f (snd (StoreLogs no_faults \<lparr>db = [], path = p\<rparr> [l1, l2, l3])) = (1, None) \<and>
      LastIndex f (snd (StoreLogs no_faults \<lparr>db = [], path = p\<rparr> [l1, l2, l3])) = (3, None)) \<and>
   (begin_err f = None \<and> op_err f 0 = None \<and> store_keys b \<and> log_indices b \<noteq> {} \<longrightarrow>
      FirstIndex f b = (Min (log_indices b), None) \<and>
      LastIndex f b = (Max (log_indices b), None))"
proof (intro conjI impI)
  assume "begin_err f = None \<and> op_err f 0 = None \<and> store_keys b \<and> log_indices b = {}"
  then show "FirstIndex f b = (0, None)" and "LastIndex f b = (0, None)"
    by (simp_all add: FirstIndex_correct LastIndex_correct)
next
  assume h: "begin_err f = None \<and> op_err f 0 = None \<and>
    Index l1 = 1 \<and> Index l2 = 2 \<and> Index l3 = 3"
  let ?b = "\<lparr>db = [(dbLogs @ uint64ToString 1, entry_bytes l1),
                     (dbLogs @ uint64ToString 2, entry_bytes l2),
                     (dbLogs @ uint64ToString 3, entry_bytes l3)], path = p\<rparr>"
  from h have s: "StoreLogs no_faults \<lparr>db = [], path = p\<rparr> [l1, l2, l3] = (None, ?b)"
    by (simp add: StoreLogs_three)
  then show "fst (StoreLogs no_faults \<lparr>db = [], path = p\<rparr> [l1, l2, l3]) = None"
    by simp
  from h have "FirstIndex f ?b = (1, None)"
    by (simp add: FirstIndex_correct store_keys_three log_indices_three)
  with s show "FirstIndex f (snd (StoreLogs no_faults \<lparr>db = [], path = p\<rparr> [l1, l2, l3])) = (1, None)"
    by simp
  from h have "LastIndex f ?b = (3, None)"
    by (simp add: LastIndex_correct store_keys_three log_indices_three)
  with s show "LastIndex f (snd (StoreLogs no_faults \<lparr>db = [], path = p\<rparr> [l1, l2, l3])) = (3, None)"
    by simp
next
  assume "begin_err f = None \<and> op_err f 0 = None \<and> store_keys b \<and> log_indices b \<noteq> {}"
  then show "FirstIndex f b = (Min (log_indices b), None)"
    and "LastIndex f b = (Max (log_indices b), None)"
    by (simp_all add: FirstIndex_correct LastIndex_correct)
qed


theorem FirstIndex_LastIndex_witness:
  "(store_keys \<lparr>db = [(dbConf @ [107], [118])], path = []\<rparr> \<and>
    log_indices \<lparr>db = [(dbConf @ [107], [118])], path = []\<rparr> = {} \<and>
    FirstIndex no_faults \<lparr>db = [(dbConf @ [107], [118])], path = []\<rparr> = (0, None) \<and>
    LastIndex no_faults \<lparr>db = [(dbConf @ [107], [118])], path = []\<rparr> = (0, None)) \<and>
   (FirstIndex no_faults (snd (StoreLogs no_faults \<lparr>db = [], path = []\<rparr>
       [\<lparr>Index = 1, Term = 0, Type = 0, Data = [108, 111, 103, 49]\<rparr>,
        \<lparr>Index = 2, Term = 0, Type = 0, Data = [108, 111, 103, 50]\<rparr>,
        \<lparr>Index = 3, Term = 0, Type = 0, Data = [108, 111, 103, 51]\<rparr>])) = (1, None) \<and>
    LastIndex no_faults (snd (StoreLogs no_faults \<lparr>db = [], path = []\<rparr>
       [\<lparr>Index = 1, Term = 0, Type = 0, Data = [108, 111, 103, 49]\<rparr>,
        \<lparr>Index = 2, Term = 0, Type = 0, Data = [108, 111, 103, 50]\<rparr>,
        \<lparr>Index = 3, Term = 0, Type = 0, Data = [108, 111, 103, 51]\<rparr>])) = (3, None)) \<and>
   (store_keys \<lparr>db = [(dbLogs @ uint64ToString 7, []), (dbConf @ [107], [118]),
                        (dbLogs @ uint64ToString 4, [])], path = []\<rparr> \<and>
    log_indices \<lparr>db = [(dbLogs @ uint64ToString 7, []), (dbConf @ [107], [118]),
                        (dbLogs @ uint64ToString 4, [])], path = []\<rparr> = {4, 7} \<and>
    FirstIndex no_faults \<lparr>db = [(dbLogs @ uint64ToString 7, []), (dbConf @ [107], [118]),
                        (dbLogs @ uint64ToString 4, [])], path = []\<rparr> = (4, None) \<and>
    LastIndex no_faults \<lparr>db = [(dbLogs @ uint64ToString 7, []), (dbConf @ [107], [118]),
                        (dbLogs @ uint64ToString 4, [])], path = []\<rparr> = (7, None))"
proof (intro conjI)
  let ?c = "\<lparr>db = [(dbConf @ [107], [118])], path = []\<rparr> :: BuntStore"
  let ?l1 = "\<lparr>Index = 1, Term = 0, Type = 0, Data = [108, 111, 103, 49]\<rparr> :: Log"
  let ?l2 = "\<lparr>Index = 2, Term = 0, Type = 0, Data = [108, 111, 103, 50]\<rparr> :: Log"
  let ?l3 = "\<lparr>Index = 3, Term = 0, Type = 0, Data = [108, 111, 103, 51]\<rparr> :: Log"
  let ?b = "\<lparr>db = [(dbLogs @ uint64ToString 7, []), (dbConf @ [107], [118]),
                   (dbLogs @ uint64ToString 4, [])], path = []\<rparr> :: BuntStore"
  note thm0 = FirstIndex_LastIndex[of no_faults ?c ?l1 ?l2 ?l3 "[]"]
  note thm1 = FirstIndex_LastIndex[of no_faults ?b ?l1 ?l2 ?l3 "[]"]
  show sk0: "store_keys ?c"
    by (simp add: store_keys_def is_conf_key_def dbConf_bytes)
  show li0: "log_indices ?c = {}"
    by (simp add: log_indices_def log_key_not_conf_key)
  from thm0 sk0 li0 show "FirstIndex no_faults ?c = (0, None)"
    by (simp add: no_faults_sel)
  from thm0 sk0 li0 show "LastIndex no_faults ?c = (0, None)"
    by (simp add: no_faults_sel)
  from thm0 show "FirstIndex no_faults (snd (StoreLogs no_faults \<lparr>db = [], path = []\<rparr>
      [?l1, ?l2, ?l3])) = (1, None)"
    by (simp add: no_faults_sel)
  from thm0 show "LastIndex no_faults (snd (StoreLogs no_faults \<lparr>db = [], path = []\<rparr>
      [?l1, ?l2, ?l3])) = (3, None)"
    by (simp add: no_faults_sel)
  show sk: "store_keys ?b"
    by (simp add: store_keys_def is_log_key_encoded is_conf_key_def dbConf_bytes)
  show li: "log_indices ?b = {4, 7}"
    by (auto simp: log_indices_def log_key_not_conf_key uint64ToString_inj)
  from thm1 sk li show "FirstIndex no_faults ?b = (4, None)"
    by (simp add: no_faults_sel)
  from thm1 sk li show "LastIndex no_faults ?b = (7, None)"
    by (simp add: no_faults_sel)
qed

lemma unat_succ: "i \<noteq> - 1 \<Longrightarrow> unat (i + 1 :: uint64) = Suc (unat i)"
proof -
  assume "i \<noteq> - 1"
  then have "1 + i \<noteq> 0"
    by (metis add_eq_0_iff)
  then have "unat (1 + i) = Suc (unat i)" by (rule unatSuc)
  then show ?thesis by (simp add: add.commute)
qed

lemma delete_absent: "map_of tx k = None \<Longrightarrow> AList.delete k tx = tx"
  by (induction tx) (auto split: if_splits)

lemma delete_step:
  "op_err f n = None \<Longrightarrow>
     (case tx_Delete f n tx k of
        Inl err \<Rightarrow> if err \<noteq> ErrNotFound then Some (Inl err) else g tx
      | Inr tx' \<Rightarrow> g tx') = g (AList.delete k tx)"
  by (cases "map_of tx k") (simp_all add: tx_Delete_def delete_absent)

lemma delete_step_fault:
  "op_err f n = Some e \<Longrightarrow> e \<noteq> ErrNotFound \<Longrightarrow>
     (case tx_Delete f n tx k of
        Inl err \<Rightarrow> if err \<noteq> ErrNotFound then Some (Inl err) else g tx
      | Inr tx' \<Rightarrow> g tx') = Some (Inl e)"
  by (simp add: tx_Delete_def)

lemma DeleteRange_loop_step:
  "op_err f n = None \<Longrightarrow> i \<le> mx \<Longrightarrow>
     DeleteRange_loop f n i mx tx =
       DeleteRange_loop f (Suc n) (i + 1) mx (AList.delete (dbLogs @ uint64ToString i) tx)"
  by (subst DeleteRange_loop.simps) (simp add: delete_step)

lemma DeleteRange_loop_done: "\<not> i \<le> mx \<Longrightarrow> DeleteRange_loop f n i mx tx = Some (Inr tx)"
  by (subst DeleteRange_loop.simps) simp

lemma DeleteRange_loop_no_result:
  assumes major: "DeleteRange_loop f n i mx tx = Some y"
  shows "mx = - 1 \<longrightarrow> (\<forall>n. op_err f n = None) \<longrightarrow> False"
proof (rule DeleteRange_loop.raw_induct
    [where P = "\<lambda>f n i mx tx y. mx = - 1 \<longrightarrow> (\<forall>n. op_err f n = None) \<longrightarrow> False", OF _ major])
  fix loop :: "faults \<Rightarrow> nat \<Rightarrow> uint64 \<Rightarrow> uint64 \<Rightarrow> items \<Rightarrow> (error + items) option"
  fix f n i mx tx y
  assume IH: "\<And>f n i mx tx y. loop f n i mx tx = Some y \<Longrightarrow>
      mx = - 1 \<longrightarrow> (\<forall>n. op_err f n = None) \<longrightarrow> False"
  assume body: "(if i \<le> mx
      then case tx_Delete f n tx (dbLogs @ uint64ToString i) of
           Inl err \<Rightarrow>
             if err \<noteq> ErrNotFound then Some (Inl err)
             else loop f (Suc n) (i + 1) mx tx
           | Inr tx' \<Rightarrow> loop f (Suc n) (i + 1) mx tx'
      else Some (Inr tx)) = Some y"
  show "mx = - 1 \<longrightarrow> (\<forall>n. op_err f n = None) \<longrightarrow> False"
  proof (intro impI)
    assume mx: "mx = - 1" and nf: "\<forall>n. op_err f n = None"
    from nf have "op_err f n = None" by simp
    with body mx
    have "loop f (Suc n) (i + 1) mx (AList.delete (dbLogs @ uint64ToString i) tx) = Some y"
      by (simp add: delete_step)
    then have "mx = - 1 \<longrightarrow> (\<forall>n. op_err f n = None) \<longrightarrow> False" by (rule IH)
    with mx nf show False by blast
  qed
qed

lemma DeleteRange_loop_diverges:
  assumes nf: "\<forall>n. op_err f n = None"
  shows "DeleteRange_loop f n i (- 1) tx = None"
  using DeleteRange_loop_no_result[of f n i "- 1" tx] nf
  by (cases "DeleteRange_loop f n i (- 1) tx") auto

lemma unat_max_uint64: "unat (- 1 :: uint64) = 2 ^ 64 - 1"
  by (simp add: unsigned_minus_1_eq_mask mask_eq_exp_minus_1)

lemma below_max_uint64: "unat i < unat (mx :: uint64) \<Longrightarrow> i \<noteq> (- 1 :: uint64)"
proof
  assume "unat i < unat mx" and "i = - 1"
  then have "2 ^ 64 - 1 < unat mx" by (simp add: unat_max_uint64)
  moreover have "unat mx < 2 ^ 64" using unsigned_less[of mx] by simp
  ultimately show False by linarith
qed

lemma DeleteRange_loop_fault:
  "unat i + k \<le> unat mx \<Longrightarrow> (\<forall>j<k. op_err f (n + j) = None) \<Longrightarrow>
     op_err f (n + k) = Some e \<Longrightarrow> e \<noteq> ErrNotFound \<Longrightarrow>
     DeleteRange_loop f n i mx tx = Some (Inl e)"
proof (induction k arbitrary: i n tx)
  case 0
  then have "i \<le> mx" by (simp add: word_le_nat_alt)
  with 0 show ?case
    by (subst DeleteRange_loop.simps) (simp add: delete_step_fault)
next
  case (Suc k)
  from Suc.prems have le: "i \<le> mx" by (simp add: word_le_nat_alt)
  from Suc.prems have h: "op_err f n = None" by force
  have "unat i < unat mx" using Suc.prems(1) by simp
  then have "i \<noteq> - 1" by (rule below_max_uint64)
  then have s: "unat (i + 1) = Suc (unat i)" by (rule unat_succ)
  have "DeleteRange_loop f (Suc n) (i + 1) mx (AList.delete (dbLogs @ uint64ToString i) tx)
      = Some (Inl e)"
  proof (rule Suc.IH)
    show "unat (i + 1) + k \<le> unat mx" using Suc.prems(1) s by simp
    show "\<forall>j<k. op_err f (Suc n + j) = None" using Suc.prems(2) by force
    show "op_err f (Suc n + k) = Some e" using Suc.prems(3) by simp
    show "e \<noteq> ErrNotFound" by (rule Suc.prems(4))
  qed
  with h le show ?case by (simp add: DeleteRange_loop_step)
qed

lemma DeleteRange_loop_ok:
  assumes nf: "\<forall>n. op_err f n = None" and mx: "mx \<noteq> - 1"
  shows "unat mx - unat i = d \<Longrightarrow> i \<le> mx \<Longrightarrow>
     \<exists>tx'. DeleteRange_loop f n i mx tx = Some (Inr tx') \<and>
       (\<forall>k. map_of tx' k =
          (if \<exists>j. i \<le> j \<and> j \<le> mx \<and> k = dbLogs @ uint64ToString j then None else map_of tx k))"
proof (induction d arbitrary: i n tx)
  case 0
  then have i: "i = mx" by (simp add: word_le_nat_alt word_unat_eq_iff)
  then have "\<not> i + 1 \<le> mx"
    using mx unat_succ[of mx] by (simp add: word_le_nat_alt)
  with nf i have "DeleteRange_loop f n i mx tx
      = Some (Inr (AList.delete (dbLogs @ uint64ToString i) tx))"
    by (simp add: DeleteRange_loop_step DeleteRange_loop_done)
  moreover have "(\<exists>j. i \<le> j \<and> j \<le> mx \<and> k = dbLogs @ uint64ToString j)
      \<longleftrightarrow> k = dbLogs @ uint64ToString i" for k
    using i by auto
  ultimately show ?case by (simp add: delete_conv')
next
  case (Suc d)
  from Suc.prems have lt: "unat i < unat mx" by simp
  then have "i \<noteq> - 1" by (rule below_max_uint64)
  then have s: "unat (i + 1) = Suc (unat i)" by (rule unat_succ)
  let ?tx1 = "AList.delete (dbLogs @ uint64ToString i) tx"
  have "\<exists>tx'. DeleteRange_loop f (Suc n) (i + 1) mx ?tx1 = Some (Inr tx') \<and>
       (\<forall>k. map_of tx' k =
          (if \<exists>j. i + 1 \<le> j \<and> j \<le> mx \<and> k = dbLogs @ uint64ToString j then None
           else map_of ?tx1 k))"
  proof (rule Suc.IH)
    show "unat mx - unat (i + 1) = d" using Suc.prems s by simp
    show "i + 1 \<le> mx" using lt s by (simp add: word_le_nat_alt)
  qed
  then obtain tx' where r: "DeleteRange_loop f (Suc n) (i + 1) mx ?tx1 = Some (Inr tx')"
    and m: "\<And>k. map_of tx' k =
          (if \<exists>j. i + 1 \<le> j \<and> j \<le> mx \<and> k = dbLogs @ uint64ToString j then None
           else map_of ?tx1 k)"
    by blast
  have split: "(i \<le> j \<and> j \<le> mx) \<longleftrightarrow> (j = i \<or> (i + 1 \<le> j \<and> j \<le> mx))" for j
    using lt s by (auto simp: word_le_nat_alt word_unat_eq_iff)
  have "DeleteRange_loop f n i mx tx = Some (Inr tx')"
    using nf Suc.prems(2) r by (simp add: DeleteRange_loop_step)
  moreover have "map_of tx' k =
      (if \<exists>j. i \<le> j \<and> j \<le> mx \<and> k = dbLogs @ uint64ToString j then None else map_of tx k)" for k
  proof -
    have "(\<exists>j. i \<le> j \<and> j \<le> mx \<and> k = dbLogs @ uint64ToString j) \<longleftrightarrow>
        (k = dbLogs @ uint64ToString i \<or>
         (\<exists>j. i + 1 \<le> j \<and> j \<le> mx \<and> k = dbLogs @ uint64ToString j))"
      (is "?L \<longleftrightarrow> _ \<or> ?R2")
    proof
      assume ?L
      then obtain j where j: "i \<le> j \<and> j \<le> mx" "k = dbLogs @ uint64ToString j" by blast
      from j(1) have "j = i \<or> (i + 1 \<le> j \<and> j \<le> mx)" by (simp only: split)
      with j(2) show "k = dbLogs @ uint64ToString i \<or> ?R2" by blast
    next
      assume "k = dbLogs @ uint64ToString i \<or> ?R2"
      then show ?L
      proof
        assume "k = dbLogs @ uint64ToString i"
        with Suc.prems(2) show ?L by blast
      next
        assume "\<exists>j. i + 1 \<le> j \<and> j \<le> mx \<and> k = dbLogs @ uint64ToString j"
        then obtain j where j: "i + 1 \<le> j \<and> j \<le> mx" "k = dbLogs @ uint64ToString j"
          by blast
        from j(1) split[of j] have "i \<le> j \<and> j \<le> mx" by blast
        with j(2) show ?L by blast
      qed
    qed
    then have e: "?L \<longleftrightarrow> k = dbLogs @ uint64ToString i \<or> ?R2" .
    show ?thesis
    proof (cases "k = dbLogs @ uint64ToString i")
      case True
      with e have l: ?L by blast
      from True have "map_of ?tx1 k = None" by (simp add: delete_conv')
      then have "map_of tx' k = None" by (simp only: m if_cancel)
      with l show ?thesis by (simp only: if_True)
    next
      case False
      with e have l: "?L \<longleftrightarrow> ?R2" by blast
      from False have "map_of ?tx1 k = map_of tx k" by (simp add: delete_conv')
      then have "map_of tx' k = (if ?R2 then None else map_of tx k)" by (simp only: m)
      with l show ?thesis by (simp only:)
    qed
  qed
  ultimately show ?case by blast
qed


lemma DeleteRange_diverges:
  "begin_err f = None \<Longrightarrow> \<forall>n. op_err f n = None \<Longrightarrow> DeleteRange f b lo (- 1) = None"
  by (simp add: DeleteRange_def Update_partial_def DeleteRange_loop_diverges)

lemma DeleteRange_begin_fault: "begin_err f = Some e \<Longrightarrow> DeleteRange f b lo hi = Some (Some e, b)"
  by (simp add: DeleteRange_def Update_partial_def)

lemma DeleteRange_fault:
  assumes "begin_err f = None" "unat lo + k \<le> unat hi" "\<forall>j<k. op_err f j = None"
    "op_err f k = Some e" "e \<noteq> ErrNotFound"
  shows "DeleteRange f b lo hi = Some (Some e, b)"
proof -
  have "DeleteRange_loop f 0 lo hi (db b) = Some (Inl e)"
    using assms(2-5) by (intro DeleteRange_loop_fault[where k = k]) simp_all
  with assms(1) show ?thesis
    by (simp add: DeleteRange_def Update_partial_def tx_end_def)
qed

lemma DeleteRange_ok:
  assumes "begin_err f = None" "\<forall>n. op_err f n = None" "commit_err f = None"
    and "lo \<le> hi" "hi \<noteq> - 1"
  shows "\<exists>b'. DeleteRange f b lo hi = Some (None, b') \<and> path b' = path b \<and>
     (\<forall>k. map_of (db b') k =
        (if \<exists>j. lo \<le> j \<and> j \<le> hi \<and> k = dbLogs @ uint64ToString j then None
         else map_of (db b) k))"
proof -
  from DeleteRange_loop_ok[OF assms(2,5) refl assms(4), of 0 "db b"]
  obtain tx' where r: "DeleteRange_loop f 0 lo hi (db b) = Some (Inr tx')"
    and m: "\<forall>k. map_of tx' k =
        (if \<exists>j. lo \<le> j \<and> j \<le> hi \<and> k = dbLogs @ uint64ToString j then None
         else map_of (db b) k)"
    by blast
  from r assms(1,3) have "DeleteRange f b lo hi = Some (None, b\<lparr>db := tx'\<rparr>)"
    by (simp add: DeleteRange_def Update_partial_def tx_end_def)
  with m show ?thesis by simp
qed

lemma GetLog_lookup:
  "begin_err g = None \<Longrightarrow> op_err g 0 = None \<Longrightarrow>
     GetLog g b i l =
       (case map_of (db b) (dbLogs @ uint64ToString i) of
          None \<Rightarrow> Inl ErrLogNotFound
        | Some v \<Rightarrow> decodeLog v l)"
  by (simp add: GetLog_def View_def tx_Get_def split: option.splits)

lemma DeleteRange_below_max:
  assumes f: "begin_err f = None" "\<forall>n. op_err f n = None" "commit_err f = None"
    and r: "lo \<le> hi" "hi \<noteq> - 1"
    and g: "begin_err g = None" "op_err g 0 = None"
  shows "\<exists>b'. DeleteRange f b lo hi = Some (None, b') \<and>
     (\<forall>j. lo \<le> j \<and> j \<le> hi \<longrightarrow> GetLog g b' j l = Inl ErrLogNotFound) \<and>
     (\<forall>j. \<not> (lo \<le> j \<and> j \<le> hi) \<longrightarrow> GetLog g b' j l = GetLog g b j l) \<and>
     (\<forall>k. map_of (db b') (dbConf @ k) = map_of (db b) (dbConf @ k))"
proof -
  from DeleteRange_ok[OF f r, of b]
  obtain b' where d: "DeleteRange f b lo hi = Some (None, b')"
    and m: "\<And>k. map_of (db b') k =
        (if \<exists>j. lo \<le> j \<and> j \<le> hi \<and> k = dbLogs @ uint64ToString j then None
         else map_of (db b) k)"
    by blast
  have inside: "GetLog g b' j l = Inl ErrLogNotFound" if "lo \<le> j \<and> j \<le> hi" for j
  proof -
    from that have "\<exists>j'. lo \<le> j' \<and> j' \<le> hi \<and>
        dbLogs @ uint64ToString j = dbLogs @ uint64ToString j'" by blast
    then have "map_of (db b') (dbLogs @ uint64ToString j) = None" by (simp only: m if_True)
    with g show ?thesis by (simp add: GetLog_lookup)
  qed
  have outside: "GetLog g b' j l = GetLog g b j l" if "\<not> (lo \<le> j \<and> j \<le> hi)" for j
  proof -
    from that have "\<not> (\<exists>j'. lo \<le> j' \<and> j' \<le> hi \<and>
        dbLogs @ uint64ToString j = dbLogs @ uint64ToString j')"
      by (auto simp: uint64ToString_inj)
    then have "map_of (db b') (dbLogs @ uint64ToString j) = map_of (db b) (dbLogs @ uint64ToString j)"
      by (simp only: m if_False)
    with g show ?thesis by (simp add: GetLog_lookup)
  qed
  have conf: "map_of (db b') (dbConf @ k) = map_of (db b) (dbConf @ k)" for k
  proof -
    have "\<not> (\<exists>j'. lo \<le> j' \<and> j' \<le> hi \<and> dbConf @ k = dbLogs @ uint64ToString j')"
      using log_key_not_conf_key by metis
    then show ?thesis by (simp only: m if_False)
  qed
  from d inside outside conf show ?thesis by blast
qed

lemma DeleteRange_loop_subset:
  assumes major: "DeleteRange_loop f n i mx tx = Some y"
  shows "\<forall>tx'. y = Inr tx' \<longrightarrow> set tx' \<subseteq> set tx"
proof (rule DeleteRange_loop.raw_induct
    [where P = "\<lambda>f n i mx tx y. \<forall>tx'. y = Inr tx' \<longrightarrow> set tx' \<subseteq> set tx", OF _ major])
  fix loop :: "faults \<Rightarrow> nat \<Rightarrow> uint64 \<Rightarrow> uint64 \<Rightarrow> items \<Rightarrow> (error + items) option"
  fix f n i mx tx y
  assume IH: "\<And>f n i mx tx y. loop f n i mx tx = Some y \<Longrightarrow>
      \<forall>tx'. y = Inr tx' \<longrightarrow> set tx' \<subseteq> set tx"
  assume body: "(if i \<le> mx
      then case tx_Delete f n tx (dbLogs @ uint64ToString i) of
           Inl err \<Rightarrow>
             if err \<noteq> ErrNotFound then Some (Inl err)
             else loop f (Suc n) (i + 1) mx tx
           | Inr tx' \<Rightarrow> loop f (Suc n) (i + 1) mx tx'
      else Some (Inr tx)) = Some y"
  show "\<forall>tx'. y = Inr tx' \<longrightarrow> set tx' \<subseteq> set tx"
  proof (cases "i \<le> mx")
    case False
    with body show ?thesis by auto
  next
    case True
    show ?thesis
    proof (cases "tx_Delete f n tx (dbLogs @ uint64ToString i)")
      case (Inl err)
      with True body IH[of f "Suc n" "i + 1" mx tx y] show ?thesis
        by (auto split: if_splits)
    next
      case (Inr tx1)
      then have "set tx1 \<subseteq> set tx"
        using set_delete_subset[of "dbLogs @ uint64ToString i" tx]
        by (auto simp: tx_Delete_def split: option.splits)
      with Inr True body IH[of f "Suc n" "i + 1" mx tx1 y] show ?thesis
        by auto
    qed
  qed
qed

lemma store_keys_DeleteRange:
  assumes "DeleteRange f b lo hi = Some (e, b')" and "store_keys b"
  shows "store_keys b'"
proof (cases "begin_err f")
  case (Some e')
  with assms show ?thesis by (simp add: DeleteRange_begin_fault)
next
  case None
  with assms(1) obtain y where y: "DeleteRange_loop f 0 lo hi (db b) = Some y"
    and b': "b' = b\<lparr>db := snd (tx_end f (db b) y)\<rparr>"
    by (auto simp: DeleteRange_def Update_partial_def)
  have "set (snd (tx_end f (db b) y)) \<subseteq> set (db b)"
    using DeleteRange_loop_subset[OF y]
    by (auto simp: tx_end_def split: sum.splits option.splits)
  with assms(2) show ?thesis
    unfolding b' by (auto simp: store_keys_def list_all_iff)
qed

text \<open>
  Claim C6. With an upper bound below the largest 64-bit value, and an engine that does
  not fail, \<^verbatim>\<open>DeleteRange\<close> returns no error, every index of the range is then not found,
  every entry outside the range and every metadata key is as before, and absent indices
  are passed over (lemma \<open>DeleteRange_below_max\<close>); an engine error other than not-found
  ends the call with that error and an unchanged store (lemma \<open>DeleteRange_fault\<close>). With
  the upper bound \<open>2^64 - 1\<close> the call never returns: on a store that holds the entry of
  index 1, \<^verbatim>\<open>DeleteRange(0, 2^64 - 1)\<close> has no result, so the entry is never removed
  and no success is reported.
\<close>

theorem DeleteRange_to_max_index_never_returns:
  "DeleteRange no_faults
     \<lparr>db = [(dbLogs @ uint64ToString 1, entry_bytes \<lparr>Index = 1, Term = 0, Type = 0, Data = []\<rparr>)],
      path = []\<rparr> 0 (- 1) = None"
  by (simp add: DeleteRange_diverges no_faults_sel)

text \<open>
  Claim C10. For an upper bound below the largest 64-bit value the loop ends (lemma
  \<open>DeleteRange_loop_ok\<close>). With the upper bound \<open>2^64 - 1\<close> the test \<open>i <= max\<close> is always
  true and the increment wraps around to 0: when the engine does not fail, the loop has
  no result, from every lower bound and on every content.
\<close>

theorem DeleteRange_loop_never_ends:
  "DeleteRange_loop no_faults n i (- 1) tx = None"
  by (simp add: DeleteRange_loop_diverges no_faults_sel)

end
